theory Spec2Isabelle
  imports Main
begin

section \<open>The LRU cache engine of \<^verbatim>\<open>inmemory_cache_restapi.go\<close>\<close>

text \<open>
  The Go program keeps a hash map from keys to pointers into a doubly linked list
  (container/list) whose elements point to heap-allocated entries. The model keeps that
  sharing explicit: an element pointer is an address (a natural number), the heap is the
  list of all entries ever allocated (the address is the index, allocation appends and an
  address is never reused), the recency list is the list of the addresses currently
  linked, front first, and the hash map sends a key to an address.

  Instants of \<open>time.Time\<close> and durations of \<open>time.Duration\<close> are integers (nanoseconds);
  \<open>time.Now()\<close> is the parameter \<open>now\<close> of the operation that reads the clock,
  \<open>t.Add(d)\<close> is \<open>t + d\<close> and \<open>t.After(u)\<close> is \<open>u < t\<close>.
  The mutex makes every operation atomic, so an operation is a function from the state
  before to its result and the state after. Printing is left out.
\<close>

datatype error = KeyNotFound

record 'v entry =
  key :: string
  val :: 'v
  ttl :: int

type_synonym element = nat

record 'v InMemoryCache =
  maxSize :: int
  cache :: "string \<rightharpoonup> element"
  lruList :: "element list"
  heap :: "'v entry list"

definition NewInMemoryCache :: "int \<Rightarrow> 'v InMemoryCache" where
  "NewInMemoryCache n = \<lparr>maxSize = n, cache = Map.empty, lruList = [], heap = []\<rparr>"

subsection \<open>The operations of container/list the cache uses\<close>

text \<open>
  \<open>MoveToFront\<close> and \<open>Remove\<close> do nothing for an element that is not linked in the list
  (Go checks \<open>e.list != l\<close>); \<open>Back\<close> is nil for the empty list.
\<close>

definition MoveToFront :: "element \<Rightarrow> element list \<Rightarrow> element list" where
  "MoveToFront e l = (if e \<in> set l then e # remove1 e l else l)"

definition PushFront :: "element \<Rightarrow> element list \<Rightarrow> element list" where
  "PushFront e l = e # l"

definition Remove :: "element \<Rightarrow> element list \<Rightarrow> element list" where
  "Remove e l = remove1 e l"

definition Back :: "element list \<Rightarrow> element option" where
  "Back l = (if l = [] then None else Some (last l))"

subsection \<open>The cache operations\<close>

text \<open>\<open>len(c.cache)\<close>: the number of keys of the hash map.\<close>

definition len_cache :: "'v InMemoryCache \<Rightarrow> int" where
  "len_cache c = int (card (dom (cache c)))"

definition removeElement :: "'v InMemoryCache \<Rightarrow> element \<Rightarrow> 'v InMemoryCache" where
  "removeElement c e =
     c\<lparr>lruList := Remove e (lruList c),
       cache := (cache c)(key (heap c ! e) := None)\<rparr>"

definition evict :: "'v InMemoryCache \<Rightarrow> 'v InMemoryCache" where
  "evict c = (case Back (lruList c) of None \<Rightarrow> c | Some e \<Rightarrow> removeElement c e)"

text \<open>
  \<open>Set\<close> returns Go's \<open>error\<close> (\<open>None\<close> is nil) and the state after. The arguments are the
  receiver, the key, the value, the TTL and the reading of the clock.
\<close>

definition InMemoryCache_Set ::
  "'v InMemoryCache \<Rightarrow> string \<Rightarrow> 'v \<Rightarrow> int \<Rightarrow> int \<Rightarrow> error option \<times> 'v InMemoryCache" where
  "InMemoryCache_Set c k v d now =
     (case cache c k of
        Some e \<Rightarrow>
          (None,
           c\<lparr>lruList := MoveToFront e (lruList c),
             heap := (heap c)[e := (heap c ! e)\<lparr>val := v, ttl := now + d\<rparr>]\<rparr>)
      | None \<Rightarrow>
          (let c1 = (if len_cache c \<ge> maxSize c then evict c else c);
               e = length (heap c1)
           in (None,
               c1\<lparr>heap := heap c1 @ [\<lparr>key = k, val = v, ttl = now + d\<rparr>],
                  lruList := PushFront e (lruList c1),
                  cache := (cache c1)(k \<mapsto> e)\<rparr>)))"

text \<open>\<open>Get\<close> returns the value or the error, and the state after.\<close>

definition InMemoryCache_Get ::
  "'v InMemoryCache \<Rightarrow> string \<Rightarrow> int \<Rightarrow> (error + 'v) \<times> 'v InMemoryCache" where
  "InMemoryCache_Get c k now =
     (case cache c k of
        Some e \<Rightarrow>
          (if now < ttl (heap c ! e)
           then (Inr (val (heap c ! e)), c\<lparr>lruList := MoveToFront e (lruList c)\<rparr>)
           else (Inl KeyNotFound, removeElement c e))
      | None \<Rightarrow> (Inl KeyNotFound, c))"

definition InMemoryCache_Delete ::
  "'v InMemoryCache \<Rightarrow> string \<Rightarrow> error option \<times> 'v InMemoryCache" where
  "InMemoryCache_Delete c k =
     (case cache c k of
        Some e \<Rightarrow> (None, removeElement c e)
      | None \<Rightarrow> (Some KeyNotFound, c))"

subsection \<open>Sequences of requests\<close>

text \<open>
  The HTTP handlers call one operation per request. A request records the operation, its
  arguments and the clock reading it sees; \<open>run\<close> applies a sequence of requests.
\<close>

datatype 'v request =
    Put string 'v int int
  | Lookup string int
  | Del string

fun step :: "'v InMemoryCache \<Rightarrow> 'v request \<Rightarrow> 'v InMemoryCache" where
  "step c (Put k v d now) = snd (InMemoryCache_Set c k v d now)"
| "step c (Lookup k now) = snd (InMemoryCache_Get c k now)"
| "step c (Del k) = snd (InMemoryCache_Delete c k)"

fun run :: "'v InMemoryCache \<Rightarrow> 'v request list \<Rightarrow> 'v InMemoryCache" where
  "run c [] = c"
| "run c (r # rs) = run (step c r) rs"

subsection \<open>The recency order and the representation invariant\<close>

text \<open>The entries in recency order, most recently used first.\<close>

definition entries :: "'v InMemoryCache \<Rightarrow> 'v entry list" where
  "entries c = map (\<lambda>e. heap c ! e) (lruList c)"

text \<open>The entry a key is mapped to: \<open>c.cache[k].Value.(*entry)\<close>, when the key is present.\<close>

definition entry_of :: "'v InMemoryCache \<Rightarrow> string \<Rightarrow> 'v entry option" where
  "entry_of c k = map_option (\<lambda>e. heap c ! e) (cache c k)"

text \<open>A request writes a key when it is a Put of that key.\<close>

fun writes :: "'v request \<Rightarrow> string \<Rightarrow> bool" where
  "writes (Put k' v d now) k = (k' = k)"
| "writes (Lookup k' now) k = False"
| "writes (Del k') k = False"

text \<open>
  An item is a key, a value, a TTL and a clock reading; \<open>puts\<close> is the sequence of the Put
  requests of a list of items, and \<open>stored\<close> is the entry that the Put of an item creates.
\<close>

definition puts :: "(string \<times> 'v \<times> int \<times> int) list \<Rightarrow> 'v request list" where
  "puts ps = map (\<lambda>(k, v, d, now). Put k v d now) ps"

definition stored :: "string \<times> 'v \<times> int \<times> int \<Rightarrow> 'v entry" where
  "stored p = (case p of (k, v, d, now) \<Rightarrow> \<lparr>key = k, val = v, ttl = now + d\<rparr>)"

text \<open>
  The invariant of the representation: no element is linked twice, every linked element
  is allocated, and the hash map sends exactly the key of each linked element's entry to
  that element.
\<close>

definition cache_inv :: "'v InMemoryCache \<Rightarrow> bool" where
  "cache_inv c \<longleftrightarrow>
     distinct (lruList c) \<and>
     (\<forall>e \<in> set (lruList c). e < length (heap c)) \<and>
     (\<forall>k e. cache c k = Some e \<longleftrightarrow> (e \<in> set (lruList c) \<and> key (heap c ! e) = k))"

section \<open>The two-tier cache (the program with the local map and the Redis store)\<close>

text \<open>
  The second program composes a local map with a Redis store. Its values are Go's
  \<open>interface{}\<close>: nil, an integer, a string, or any other decoded JSON value.
\<close>

datatype 'a iface = INil | IntV int | StrV string | OtherV 'a

record 'a CacheItem =
  Value :: "'a iface"
  TTL :: int

text \<open>
  This program's \<open>InMemoryCache\<close> is a plain map from keys to items (the names carry a 2:
  the LRU engine above has the same names). An item is never changed once stored, so the
  map holds the items themselves. The local tier never returns an error; \<open>'e\<close> is the type
  of the errors of the Redis client.
\<close>

record 'a InMemoryCache2 =
  data :: "string \<rightharpoonup> 'a CacheItem"

definition NewInMemoryCache2 :: "'a InMemoryCache2" where
  "NewInMemoryCache2 = \<lparr>data = Map.empty\<rparr>"

definition InMemoryCache2_Set ::
  "'a InMemoryCache2 \<Rightarrow> string \<Rightarrow> 'a iface \<Rightarrow> int \<Rightarrow> int \<Rightarrow> 'e option \<times> 'a InMemoryCache2" where
  "InMemoryCache2_Set c k v d now =
     (None, c\<lparr>data := (data c)(k \<mapsto> \<lparr>Value = v, TTL = now + d\<rparr>)\<rparr>)"

text \<open>\<open>Get\<close> reads only: it returns the value and the error (\<open>item.TTL.Before(now)\<close> is \<open>TTL < now\<close>).\<close>

definition InMemoryCache2_Get ::
  "'a InMemoryCache2 \<Rightarrow> string \<Rightarrow> int \<Rightarrow> 'a iface \<times> 'e option" where
  "InMemoryCache2_Get c k now =
     (case data c k of
        None \<Rightarrow> (INil, None)
      | Some item \<Rightarrow> (if TTL item < now then (INil, None) else (Value item, None)))"

definition InMemoryCache2_Delete ::
  "'a InMemoryCache2 \<Rightarrow> string \<Rightarrow> 'e option \<times> 'a InMemoryCache2" where
  "InMemoryCache2_Delete c k = (None, c\<lparr>data := (data c)(k := None)\<rparr>)"

text \<open>
  The Redis client, the server behind it and the two functions of Go's standard library the
  program calls are not part of the repository; they are parameters of the model. The
  store behind the client has a state of type \<open>'r\<close>, every call of the client may change
  it, and a call may fail with an error of type \<open>'e\<close>. The outcome of
  \<open>client.Get(ctx, key).Result()\<close> is the error \<open>redis.Nil\<close>, another error, or the string.
\<close>

datatype 'e reply = RedisNil | Failed 'e | Result string

record ('a, 'r, 'e) extern =
  client_Set :: "'r \<Rightarrow> string \<Rightarrow> 'a iface \<Rightarrow> int \<Rightarrow> 'e option \<times> 'r"
  client_Get :: "'r \<Rightarrow> string \<Rightarrow> 'e reply \<times> 'r"
  client_Del :: "'r \<Rightarrow> string \<Rightarrow> 'e option \<times> 'r"
  Sprintf_v :: "'a iface \<Rightarrow> string"
  Atoi :: "string \<Rightarrow> int option"

definition RedisCache_Set ::
  "('a, 'r, 'e) extern \<Rightarrow> 'r \<Rightarrow> string \<Rightarrow> 'a iface \<Rightarrow> int \<Rightarrow> 'e option \<times> 'r" where
  "RedisCache_Set x r k v d =
     (case client_Set x r k v d of
        (Some err, r') \<Rightarrow> (Some err, r')
      | (None, r') \<Rightarrow> (None, r'))"

definition RedisCache_Get ::
  "('a, 'r, 'e) extern \<Rightarrow> 'r \<Rightarrow> string \<Rightarrow> ('a iface \<times> 'e option) \<times> 'r" where
  "RedisCache_Get x r k =
     (case client_Get x r k of
        (RedisNil, r') \<Rightarrow> ((INil, None), r')
      | (Failed err, r') \<Rightarrow> ((INil, Some err), r')
      | (Result s, r') \<Rightarrow>
          (case Atoi x s of
             None \<Rightarrow> ((StrV s, None), r')
           | Some i \<Rightarrow> ((IntV i, None), r')))"

definition RedisCache_Delete ::
  "('a, 'r, 'e) extern \<Rightarrow> 'r \<Rightarrow> string \<Rightarrow> 'e option \<times> 'r" where
  "RedisCache_Delete x r k =
     (case client_Del x r k of
        (Some err, r') \<Rightarrow> (Some err, r')
      | (None, r') \<Rightarrow> (None, r'))"

text \<open>
  \<open>NewUnifiedCache\<close> puts a fresh local map and a Redis client into the two fields; the
  state of the composition is the local map and the state of the store.
\<close>

record ('a, 'r) UnifiedCache =
  InMemory :: "'a InMemoryCache2"
  Redis :: 'r

definition NewUnifiedCache :: "'r \<Rightarrow> ('a, 'r) UnifiedCache" where
  "NewUnifiedCache r = \<lparr>InMemory = NewInMemoryCache2, Redis = r\<rparr>"

definition UnifiedCache_Set ::
  "('a, 'r, 'e) extern \<Rightarrow> ('a, 'r) UnifiedCache \<Rightarrow> string \<Rightarrow> 'a iface \<Rightarrow> int \<Rightarrow> int \<Rightarrow>
   'e option \<times> ('a, 'r) UnifiedCache" where
  "UnifiedCache_Set x u k v d now =
     (case InMemoryCache2_Set (InMemory u) k v d now of
        (Some err, m') \<Rightarrow> (Some err, u\<lparr>InMemory := m'\<rparr>)
      | (None, m') \<Rightarrow>
          (let strValue = Sprintf_v x v;
               (err, r') = RedisCache_Set x (Redis u) k (StrV strValue) d
           in (err, u\<lparr>InMemory := m', Redis := r'\<rparr>)))"

definition UnifiedCache_Get ::
  "('a, 'r, 'e) extern \<Rightarrow> ('a, 'r) UnifiedCache \<Rightarrow> string \<Rightarrow> int \<Rightarrow>
   ('a iface \<times> 'e option) \<times> ('a, 'r) UnifiedCache" where
  "UnifiedCache_Get x u k now =
     (case InMemoryCache2_Get (InMemory u) k now of
        (v, err) \<Rightarrow>
          if err = (None :: 'e option) \<and> v \<noteq> INil then ((v, None), u)
          else
            (case RedisCache_Get x (Redis u) k of
               ((rawValue, Some err'), r') \<Rightarrow> ((INil, Some err'), u\<lparr>Redis := r'\<rparr>)
             | ((rawValue, None), r') \<Rightarrow>
                 (case rawValue of
                    StrV strValue \<Rightarrow>
                      (case Atoi x strValue of
                         None \<Rightarrow> ((StrV strValue, None), u\<lparr>Redis := r'\<rparr>)
                       | Some intValue \<Rightarrow> ((IntV intValue, None), u\<lparr>Redis := r'\<rparr>))
                  | _ \<Rightarrow> ((rawValue, None), u\<lparr>Redis := r'\<rparr>))))"

definition UnifiedCache_Delete ::
  "('a, 'r, 'e) extern \<Rightarrow> ('a, 'r) UnifiedCache \<Rightarrow> string \<Rightarrow>
   'e option \<times> ('a, 'r) UnifiedCache" where
  "UnifiedCache_Delete x u k =
     (case InMemoryCache2_Delete (InMemory u) k of
        (Some err, m') \<Rightarrow> (Some err, u\<lparr>InMemory := m'\<rparr>)
      | (None, m') \<Rightarrow>
          (let (err, r') = RedisCache_Delete x (Redis u) k
           in (err, u\<lparr>InMemory := m', Redis := r'\<rparr>)))"

text \<open>
  An instance of the parameters, for examples: the store is a map from keys to strings, no
  call fails, the only value that is formatted and parsed as a number is 7.
\<close>

definition map_extern :: "(unit, string \<rightharpoonup> string, unit) extern" where
  "map_extern =
     \<lparr>client_Set = (\<lambda>r k v d. (None, r(k \<mapsto> (case v of StrV s \<Rightarrow> s | _ \<Rightarrow> [])))),
      client_Get = (\<lambda>r k. (case r k of None \<Rightarrow> RedisNil | Some s \<Rightarrow> Result s, r)),
      client_Del = (\<lambda>r k. (None, r(k := None))),
      Sprintf_v = (\<lambda>v. case v of StrV s \<Rightarrow> s | IntV i \<Rightarrow> (if i = 7 then ''7'' else ''?'') | _ \<Rightarrow> ''?''),
      Atoi = (\<lambda>s. if s = ''7'' then Some 7 else None)\<rparr>"

section \<open>Verification\<close>

subsection \<open>The invariant and what it gives\<close>

text \<open>
  The empty cache satisfies the invariant and every operation preserves it (below), so
  every state the program reaches satisfies it. Under the invariant the keys of the linked
  entries are distinct and \<open>len(c.cache)\<close> is the length of the recency list.
\<close>

lemma cache_inv_New: "cache_inv (NewInMemoryCache n)"
  by (simp add: cache_inv_def NewInMemoryCache_def)

lemma cache_inv_lookup:
  assumes "cache_inv c" "cache c k = Some e"
  shows "e \<in> set (lruList c)" "e < length (heap c)" "key (heap c ! e) = k"
  using assms unfolding cache_inv_def by simp_all

lemma cache_inv_linked:
  assumes "cache_inv c" "e \<in> set (lruList c)"
  shows "cache c (key (heap c ! e)) = Some e" "e < length (heap c)"
  using assms unfolding cache_inv_def by simp_all

lemma cache_inv_inj:
  assumes "cache_inv c"
  shows "inj_on (\<lambda>e. key (heap c ! e)) (set (lruList c))"
proof (rule inj_onI)
  fix x y assume x: "x \<in> set (lruList c)" and y: "y \<in> set (lruList c)"
    and eq: "key (heap c ! x) = key (heap c ! y)"
  have "Some x = cache c (key (heap c ! x))"
    by (rule cache_inv_linked(1)[OF assms x, symmetric])
  also have "\<dots> = cache c (key (heap c ! y))"
    by (rule arg_cong[OF eq])
  also have "\<dots> = Some y"
    by (rule cache_inv_linked(1)[OF assms y])
  finally show "x = y" by (rule option.inject[THEN iffD1])
qed

lemma cache_inv_dom:
  assumes "cache_inv c"
  shows "dom (cache c) = (\<lambda>e. key (heap c ! e)) ` set (lruList c)"
  using assms unfolding cache_inv_def dom_def by auto

lemma len_cache_length:
  assumes "cache_inv c"
  shows "len_cache c = int (length (lruList c))"
proof -
  have "card (dom (cache c)) = card (set (lruList c))"
    using cache_inv_dom[OF assms] cache_inv_inj[OF assms] by (simp add: card_image)
  also have "\<dots> = length (lruList c)"
    using assms by (simp add: cache_inv_def distinct_card)
  finally show ?thesis by (simp add: len_cache_def)
qed

lemma len_cache_entries: "cache_inv c \<Longrightarrow> len_cache c = int (length (entries c))"
  by (simp add: len_cache_length entries_def)

lemma keys_entries: "map key (entries c) = map (\<lambda>e. key (heap c ! e)) (lruList c)"
  by (simp add: entries_def)

lemma distinct_keys:
  assumes "cache_inv c"
  shows "distinct (map key (entries c))"
  unfolding keys_entries using assms cache_inv_inj[OF assms]
  by (simp add: distinct_map cache_inv_def)

lemma cache_None_iff:
  assumes "cache_inv c"
  shows "cache c k = None \<longleftrightarrow> k \<notin> key ` set (entries c)"
proof -
  have "k \<in> dom (cache c) \<longleftrightarrow> k \<in> key ` set (entries c)"
    unfolding cache_inv_dom[OF assms] entries_def by auto
  then show ?thesis by (auto simp: dom_def)
qed

subsection \<open>Removing an element and evicting the tail\<close>

lemma removeElement_sel [simp]:
  "lruList (removeElement c e) = remove1 e (lruList c)"
  "cache (removeElement c e) = (cache c)(key (heap c ! e) := None)"
  "heap (removeElement c e) = heap c"
  "maxSize (removeElement c e) = maxSize c"
  by (simp_all add: removeElement_def Remove_def)

lemma cache_inv_removeElement:
  assumes inv: "cache_inv c" and e: "e \<in> set (lruList c)"
  shows "cache_inv (removeElement c e)"
proof -
  have d: "distinct (lruList c)" using inv by (simp add: cache_inv_def)
  have s: "set (remove1 e (lruList c)) = set (lruList c) - {e}"
    using d by (rule set_remove1_eq)
  have 1: "distinct (remove1 e (lruList c))" using d by (rule distinct_remove1)
  have 2: "\<forall>a \<in> set (remove1 e (lruList c)). a < length (heap c)"
    using inv s by (simp add: cache_inv_def)
  have 3: "((cache c)(key (heap c ! e) := None)) k = Some a \<longleftrightarrow>
           (a \<in> set (remove1 e (lruList c)) \<and> key (heap c ! a) = k)" for k a
  proof (cases "k = key (heap c ! e)")
    case True
    have "\<not> (a \<in> set (lruList c) \<and> a \<noteq> e \<and> key (heap c ! a) = key (heap c ! e))"
      using cache_inv_inj[OF inv] e by (auto simp: inj_on_def)
    then show ?thesis using True s by auto
  next
    case False
    have "cache c k = Some a \<longleftrightarrow> (a \<in> set (lruList c) \<and> key (heap c ! a) = k)"
      using inv by (simp add: cache_inv_def)
    then show ?thesis using False s by auto
  qed
  show ?thesis
    unfolding cache_inv_def removeElement_sel using 1 2 3 by blast
qed

lemma remove1_filter_key:
  assumes inv: "cache_inv c" and e: "e \<in> set (lruList c)"
  shows "remove1 e (lruList c) = filter (\<lambda>a. key (heap c ! a) \<noteq> key (heap c ! e)) (lruList c)"
proof -
  have d: "distinct (lruList c)" using inv by (simp add: cache_inv_def)
  have "remove1 e (lruList c) = filter (\<lambda>a. e \<noteq> a) (lruList c)"
    using d by (simp add: distinct_remove1_removeAll removeAll_filter_not_eq)
  also have "\<dots> = filter (\<lambda>a. key (heap c ! a) \<noteq> key (heap c ! e)) (lruList c)"
    using cache_inv_inj[OF inv] e by (intro filter_cong) (auto simp: inj_on_def)
  finally show ?thesis .
qed

lemma entries_removeElement:
  assumes inv: "cache_inv c" and e: "e \<in> set (lruList c)"
  shows "entries (removeElement c e) = filter (\<lambda>x. key x \<noteq> key (heap c ! e)) (entries c)"
  by (simp add: entries_def remove1_filter_key[OF inv e] filter_map comp_def)

lemma remove1_last:
  assumes "distinct l" "l \<noteq> []"
  shows "remove1 (last l) l = butlast l"
proof -
  have l: "l = butlast l @ [last l]" using assms(2) by simp
  have "distinct (butlast l @ [last l])" using assms(1) l by simp
  then have "last l \<notin> set (butlast l)" by simp
  then have "remove1 (last l) (butlast l @ [last l]) = butlast l"
    by (simp add: remove1_append)
  with l show ?thesis by simp
qed

lemma evict_Nil: "lruList c = [] \<Longrightarrow> evict c = c"
  by (simp add: evict_def Back_def)

lemma evict_nonempty: "lruList c \<noteq> [] \<Longrightarrow> evict c = removeElement c (last (lruList c))"
  by (simp add: evict_def Back_def)

lemma cache_inv_evict:
  assumes "cache_inv c"
  shows "cache_inv (evict c)"
proof (cases "lruList c = []")
  case True
  then show ?thesis using assms by (simp add: evict_Nil)
next
  case False
  then show ?thesis using assms by (simp add: evict_nonempty cache_inv_removeElement)
qed

lemma entries_evict:
  assumes "cache_inv c"
  shows "entries (evict c) = butlast (entries c)"
proof (cases "lruList c = []")
  case True
  then show ?thesis by (simp add: evict_Nil entries_def)
next
  case False
  have d: "distinct (lruList c)" using assms by (simp add: cache_inv_def)
  show ?thesis
    using False by (simp add: evict_nonempty entries_def remove1_last[OF d False] map_butlast)
qed

lemma evict_sel [simp]: "heap (evict c) = heap c" "maxSize (evict c) = maxSize c"
  by (simp_all add: evict_def split: option.splits)

subsection \<open>Moving an element to the front and pushing a new one\<close>

lemma cache_inv_touch:
  assumes inv: "cache_inv c" and e: "e \<in> set (lruList c)" and kx: "key x = key (heap c ! e)"
  shows "cache_inv (c\<lparr>lruList := e # remove1 e (lruList c), heap := (heap c)[e := x]\<rparr>)"
proof -
  have d: "distinct (lruList c)" using inv by (simp add: cache_inv_def)
  have b: "\<forall>a \<in> set (lruList c). a < length (heap c)" using inv by (simp add: cache_inv_def)
  have s: "set (e # remove1 e (lruList c)) = set (lruList c)"
    using e set_remove1_eq[OF d, of e] by auto
  have keys: "key ((heap c)[e := x] ! a) = key (heap c ! a)" if "a \<in> set (lruList c)" for a
    using that b kx by (cases "a = e") simp_all
  have 1: "distinct (e # remove1 e (lruList c))" using d by simp
  have 3: "cache c k = Some a \<longleftrightarrow>
           (a \<in> set (e # remove1 e (lruList c)) \<and> key ((heap c)[e := x] ! a) = k)" for k a
  proof -
    have "cache c k = Some a \<longleftrightarrow> (a \<in> set (lruList c) \<and> key (heap c ! a) = k)"
      using inv by (simp add: cache_inv_def)
    then show ?thesis unfolding s using keys[of a]
      by (cases "a \<in> set (lruList c)") simp_all
  qed
  have 2: "\<forall>a \<in> set (e # remove1 e (lruList c)). a < length ((heap c)[e := x])"
    unfolding s using b by simp
  show ?thesis
    unfolding cache_inv_def using 1 2 3 by simp
qed

lemma entries_touch:
  assumes inv: "cache_inv c" and e: "e \<in> set (lruList c)" and kx: "key x = key (heap c ! e)"
  shows "entries (c\<lparr>lruList := e # remove1 e (lruList c), heap := (heap c)[e := x]\<rparr>) =
         x # filter (\<lambda>y. key y \<noteq> key x) (entries c)"
proof -
  have b: "e < length (heap c)" using inv e by (simp add: cache_inv_def)
  have d: "distinct (lruList c)" using inv by (simp add: cache_inv_def)
  have ne: "e \<notin> set (remove1 e (lruList c))" using d by simp
  have same: "(heap c)[e := x] ! a = heap c ! a" if "a \<in> set (remove1 e (lruList c))" for a
  proof -
    have "e \<noteq> a" using that ne by blast
    then show ?thesis by simp
  qed
  have "map (\<lambda>a. (heap c)[e := x] ! a) (remove1 e (lruList c)) =
        map (\<lambda>a. heap c ! a) (remove1 e (lruList c))"
    by (rule map_cong[OF refl same])
  also have "\<dots> = filter (\<lambda>y. key y \<noteq> key x) (entries c)"
    by (simp add: entries_def remove1_filter_key[OF inv e] filter_map comp_def kx)
  finally show ?thesis using b by (simp add: entries_def)
qed

lemma cache_inv_push:
  assumes inv: "cache_inv c" and k: "cache c (key x) = None"
  shows "cache_inv (c\<lparr>heap := heap c @ [x], lruList := length (heap c) # lruList c,
                      cache := (cache c)(key x \<mapsto> length (heap c))\<rparr>)"
proof -
  let ?n = "length (heap c)"
  have d: "distinct (lruList c)" using inv by (simp add: cache_inv_def)
  have b: "\<forall>a \<in> set (lruList c). a < ?n" using inv by (simp add: cache_inv_def)
  have fresh: "?n \<notin> set (lruList c)" using b by auto
  have old: "(heap c @ [x]) ! a = heap c ! a" if "a \<in> set (lruList c)" for a
    using that b by (simp add: nth_append)
  have nk: "key (heap c ! a) \<noteq> key x" if "a \<in> set (lruList c)" for a
    using cache_inv_linked(1)[OF inv that] k by auto
  have 1: "distinct (?n # lruList c)" using d fresh by simp
  have 2: "\<forall>a \<in> set (?n # lruList c). a < length (heap c @ [x])" using b by auto
  have 3: "((cache c)(key x \<mapsto> ?n)) k' = Some a \<longleftrightarrow>
           (a \<in> set (?n # lruList c) \<and> key ((heap c @ [x]) ! a) = k')" for k' a
  proof (cases "a = ?n")
    case True
    have "cache c k' \<noteq> Some ?n" using cache_inv_lookup(1)[OF inv, of k' ?n] fresh by blast
    then show ?thesis using True by auto
  next
    case False
    have "cache c k' = Some a \<longleftrightarrow> (a \<in> set (lruList c) \<and> key (heap c ! a) = k')"
      using inv by (simp add: cache_inv_def)
    then show ?thesis using False old nk by auto
  qed
  show ?thesis
    unfolding cache_inv_def using 1 2 3 by simp
qed

lemma entries_push:
  assumes inv: "cache_inv c"
  shows "entries (c\<lparr>heap := heap c @ [x], lruList := length (heap c) # lruList c,
                      cache := m\<rparr>) = x # entries c"
proof -
  have b: "\<forall>a \<in> set (lruList c). a < length (heap c)" using inv by (simp add: cache_inv_def)
  have "map (\<lambda>a. (heap c @ [x]) ! a) (lruList c) = map (\<lambda>a. heap c ! a) (lruList c)"
    using b by (intro map_cong) (auto simp: nth_append)
  then show ?thesis by (simp add: entries_def)
qed

lemma cache_evict_None:
  assumes "cache c k = None"
  shows "cache (evict c) k = None"
  using assms by (simp add: evict_def split: option.splits)

subsection \<open>The paths of Set, Get and Delete\<close>

lemma Set_existing:
  assumes inv: "cache_inv c" and k: "cache c k = Some e"
  shows "InMemoryCache_Set c k v d now =
         (None, c\<lparr>lruList := e # remove1 e (lruList c),
                   heap := (heap c)[e := (heap c ! e)\<lparr>val := v, ttl := now + d\<rparr>]\<rparr>)"
  using cache_inv_lookup(1)[OF inv k] k
  by (simp add: InMemoryCache_Set_def MoveToFront_def)

lemma Set_new_room:
  assumes k: "cache c k = None" and room: "len_cache c < maxSize c"
  shows "InMemoryCache_Set c k v d now =
         (None, c\<lparr>heap := heap c @ [\<lparr>key = k, val = v, ttl = now + d\<rparr>],
                   lruList := length (heap c) # lruList c,
                   cache := (cache c)(k \<mapsto> length (heap c))\<rparr>)"
  using k room by (simp add: InMemoryCache_Set_def PushFront_def Let_def)

lemma Set_new_full:
  assumes k: "cache c k = None" and full: "maxSize c \<le> len_cache c"
  shows "InMemoryCache_Set c k v d now =
         (None, (evict c)\<lparr>heap := heap (evict c) @ [\<lparr>key = k, val = v, ttl = now + d\<rparr>],
                   lruList := length (heap (evict c)) # lruList (evict c),
                   cache := (cache (evict c))(k \<mapsto> length (heap (evict c)))\<rparr>)"
  using k full by (simp add: InMemoryCache_Set_def PushFront_def Let_def)

lemma Get_miss: "cache c k = None \<Longrightarrow> InMemoryCache_Get c k now = (Inl KeyNotFound, c)"
  by (simp add: InMemoryCache_Get_def)

lemma Get_expired:
  "cache c k = Some e \<Longrightarrow> ttl (heap c ! e) \<le> now \<Longrightarrow>
   InMemoryCache_Get c k now = (Inl KeyNotFound, removeElement c e)"
  by (simp add: InMemoryCache_Get_def)

lemma Get_hit:
  assumes inv: "cache_inv c" and k: "cache c k = Some e" and live: "now < ttl (heap c ! e)"
  shows "InMemoryCache_Get c k now =
         (Inr (val (heap c ! e)),
          c\<lparr>lruList := e # remove1 e (lruList c), heap := (heap c)[e := heap c ! e]\<rparr>)"
  using cache_inv_lookup(1)[OF inv k] k live
  by (simp add: InMemoryCache_Get_def MoveToFront_def)

lemma Delete_miss: "cache c k = None \<Longrightarrow> InMemoryCache_Delete c k = (Some KeyNotFound, c)"
  by (simp add: InMemoryCache_Delete_def)

lemma Delete_hit: "cache c k = Some e \<Longrightarrow> InMemoryCache_Delete c k = (None, removeElement c e)"
  by (simp add: InMemoryCache_Delete_def)

subsection \<open>Every operation preserves the invariant\<close>

lemma cache_inv_Set:
  assumes inv: "cache_inv c"
  shows "cache_inv (snd (InMemoryCache_Set c k v d now))"
proof (cases "cache c k")
  case (Some e)
  have "key ((heap c ! e)\<lparr>val := v, ttl := now + d\<rparr>) = key (heap c ! e)" by simp
  from cache_inv_touch[OF inv cache_inv_lookup(1)[OF inv Some] this]
  show ?thesis by (simp add: Set_existing[OF inv Some])
next
  case None
  show ?thesis
  proof (cases "len_cache c < maxSize c")
    case True
    from cache_inv_push[OF inv, of "\<lparr>key = k, val = v, ttl = now + d\<rparr>"] None
    show ?thesis by (simp add: Set_new_room[OF None True])
  next
    case False
    then have full: "maxSize c \<le> len_cache c" by simp
    have "cache (evict c) k = None" using None by (rule cache_evict_None)
    with cache_inv_push[OF cache_inv_evict[OF inv], of "\<lparr>key = k, val = v, ttl = now + d\<rparr>"]
    show ?thesis by (simp add: Set_new_full[OF None full])
  qed
qed

lemma cache_inv_Get:
  assumes inv: "cache_inv c"
  shows "cache_inv (snd (InMemoryCache_Get c k now))"
proof (cases "cache c k")
  case None
  then show ?thesis using inv by (simp add: Get_miss)
next
  case (Some e)
  note e = cache_inv_lookup(1)[OF inv Some]
  show ?thesis
  proof (cases "now < ttl (heap c ! e)")
    case True
    from cache_inv_touch[OF inv e refl]
    show ?thesis by (simp add: Get_hit[OF inv Some True])
  next
    case False
    then have "ttl (heap c ! e) \<le> now" by simp
    then show ?thesis
      using cache_inv_removeElement[OF inv e] by (simp add: Get_expired[OF Some])
  qed
qed

lemma cache_inv_Delete:
  assumes inv: "cache_inv c"
  shows "cache_inv (snd (InMemoryCache_Delete c k))"
proof (cases "cache c k")
  case None
  then show ?thesis using inv by (simp add: Delete_miss)
next
  case (Some e)
  then show ?thesis
    using cache_inv_removeElement[OF inv cache_inv_lookup(1)[OF inv Some]]
    by (simp add: Delete_hit)
qed

lemma cache_inv_step: "cache_inv c \<Longrightarrow> cache_inv (step c r)"
  by (cases r) (simp_all add: cache_inv_Set cache_inv_Get cache_inv_Delete)

lemma cache_inv_run: "cache_inv c \<Longrightarrow> cache_inv (run c rs)"
  by (induction rs arbitrary: c) (simp_all add: cache_inv_step)

lemma maxSize_Set [simp]: "maxSize (snd (InMemoryCache_Set c k v d now)) = maxSize c"
  by (simp add: InMemoryCache_Set_def Let_def split: option.splits)

lemma maxSize_Get [simp]: "maxSize (snd (InMemoryCache_Get c k now)) = maxSize c"
  by (simp add: InMemoryCache_Get_def split: option.splits)

lemma maxSize_Delete [simp]: "maxSize (snd (InMemoryCache_Delete c k)) = maxSize c"
  by (simp add: InMemoryCache_Delete_def split: option.splits)

lemma maxSize_step [simp]: "maxSize (step c r) = maxSize c"
  by (cases r) simp_all

lemma maxSize_run [simp]: "maxSize (run c rs) = maxSize c"
  by (induction rs arbitrary: c) simp_all

subsection \<open>The recency order after each operation\<close>

lemma entries_Set_existing:
  assumes inv: "cache_inv c" and k: "cache c k = Some e"
  shows "entries (snd (InMemoryCache_Set c k v d now)) =
         (heap c ! e)\<lparr>val := v, ttl := now + d\<rparr> # filter (\<lambda>y. key y \<noteq> k) (entries c)"
proof -
  have kx: "key ((heap c ! e)\<lparr>val := v, ttl := now + d\<rparr>) = key (heap c ! e)" by simp
  show ?thesis
    using entries_touch[OF inv cache_inv_lookup(1)[OF inv k] kx] cache_inv_lookup(3)[OF inv k]
    by (simp add: Set_existing[OF inv k])
qed

lemma entries_Set_new_room:
  assumes inv: "cache_inv c" and k: "cache c k = None" and room: "len_cache c < maxSize c"
  shows "entries (snd (InMemoryCache_Set c k v d now)) =
         \<lparr>key = k, val = v, ttl = now + d\<rparr> # entries c"
  by (simp add: Set_new_room[OF k room] entries_push[OF inv])

lemma entries_Set_new_full:
  assumes inv: "cache_inv c" and k: "cache c k = None" and full: "maxSize c \<le> len_cache c"
  shows "entries (snd (InMemoryCache_Set c k v d now)) =
         \<lparr>key = k, val = v, ttl = now + d\<rparr> # butlast (entries c)"
  using entries_push[OF cache_inv_evict[OF inv],
      where x = "\<lparr>key = k, val = v, ttl = now + d\<rparr>"
        and m = "(cache (evict c))(k \<mapsto> length (heap c))"]
  by (simp add: Set_new_full[OF k full] entries_evict[OF inv])

lemma entries_Get_hit:
  assumes inv: "cache_inv c" and k: "cache c k = Some e" and live: "now < ttl (heap c ! e)"
  shows "entries (snd (InMemoryCache_Get c k now)) =
         heap c ! e # filter (\<lambda>y. key y \<noteq> k) (entries c)"
  using entries_touch[OF inv cache_inv_lookup(1)[OF inv k] refl] cache_inv_lookup(3)[OF inv k]
  by (simp add: Get_hit[OF inv k live])

lemma entries_Get_expired:
  assumes inv: "cache_inv c" and k: "cache c k = Some e" and dead: "ttl (heap c ! e) \<le> now"
  shows "entries (snd (InMemoryCache_Get c k now)) = filter (\<lambda>y. key y \<noteq> k) (entries c)"
  using entries_removeElement[OF inv cache_inv_lookup(1)[OF inv k]] cache_inv_lookup(3)[OF inv k]
  by (simp add: Get_expired[OF k dead])

lemma entries_Delete_hit:
  assumes inv: "cache_inv c" and k: "cache c k = Some e"
  shows "entries (snd (InMemoryCache_Delete c k)) = filter (\<lambda>y. key y \<noteq> k) (entries c)"
  using entries_removeElement[OF inv cache_inv_lookup(1)[OF inv k]] cache_inv_lookup(3)[OF inv k]
  by (simp add: Delete_hit[OF k])

subsection \<open>The number of keys after each operation\<close>

lemma length_filter_key:
  assumes inv: "cache_inv c" and k: "cache c k = Some e"
  shows "length (filter (\<lambda>y. key y \<noteq> k) (entries c)) = length (entries c) - 1"
proof -
  note e = cache_inv_lookup(1)[OF inv k]
  have "filter (\<lambda>y. key y \<noteq> k) (entries c) = map (\<lambda>a. heap c ! a) (remove1 e (lruList c))"
    using cache_inv_lookup(3)[OF inv k]
    by (simp add: entries_def remove1_filter_key[OF inv e] filter_map comp_def)
  then show ?thesis using e by (simp add: entries_def length_remove1)
qed

lemma entries_nonempty:
  assumes inv: "cache_inv c" and k: "cache c k = Some e"
  shows "entries c \<noteq> []"
  using cache_inv_lookup(1)[OF inv k] by (auto simp: entries_def)

lemma len_cache_Set:
  assumes inv: "cache_inv c"
  shows "len_cache (snd (InMemoryCache_Set c k v d now)) =
         (if cache c k \<noteq> None then len_cache c
          else if len_cache c < maxSize c then len_cache c + 1
          else if len_cache c = 0 then 1 else len_cache c)"
proof (cases "cache c k")
  case (Some e)
  have "length (entries c) \<noteq> 0" using entries_nonempty[OF inv Some] by simp
  then show ?thesis
    using Some
    by (simp add: len_cache_entries[OF cache_inv_Set[OF inv]] len_cache_entries[OF inv]
        entries_Set_existing[OF inv Some] length_filter_key[OF inv Some])
next
  case None
  show ?thesis
  proof (cases "len_cache c < maxSize c")
    case True
    then show ?thesis using None
      by (simp add: len_cache_entries[OF cache_inv_Set[OF inv]] len_cache_entries[OF inv]
          entries_Set_new_room[OF inv None True])
  next
    case False
    then have full: "maxSize c \<le> len_cache c" by simp
    show ?thesis using None False
      by (cases "entries c = []")
         (simp_all add: len_cache_entries[OF cache_inv_Set[OF inv]] len_cache_entries[OF inv]
          entries_Set_new_full[OF inv None full])
  qed
qed

lemma len_cache_Get:
  assumes inv: "cache_inv c"
  shows "len_cache (snd (InMemoryCache_Get c k now)) \<le> len_cache c"
proof (cases "cache c k")
  case None
  then show ?thesis by (simp add: Get_miss)
next
  case (Some e)
  show ?thesis
  proof (cases "now < ttl (heap c ! e)")
    case True
    have "length (entries c) \<noteq> 0" using entries_nonempty[OF inv Some] by simp
    then show ?thesis
      by (simp add: len_cache_entries[OF cache_inv_Get[OF inv]] len_cache_entries[OF inv]
        entries_Get_hit[OF inv Some True] length_filter_key[OF inv Some])
  next
    case False
    then have dead: "ttl (heap c ! e) \<le> now" by simp
    show ?thesis
      by (simp add: len_cache_entries[OF cache_inv_Get[OF inv]] len_cache_entries[OF inv]
        entries_Get_expired[OF inv Some dead])
  qed
qed

lemma len_cache_Delete:
  assumes inv: "cache_inv c"
  shows "len_cache (snd (InMemoryCache_Delete c k)) \<le> len_cache c"
proof (cases "cache c k")
  case None
  then show ?thesis by (simp add: Delete_miss)
next
  case (Some e)
  show ?thesis
    by (simp add: len_cache_entries[OF cache_inv_Delete[OF inv]] len_cache_entries[OF inv]
        entries_Delete_hit[OF inv Some])
qed

lemma len_cache_nonneg: "0 \<le> len_cache c"
  by (simp add: len_cache_def)

lemma bounded_step:
  assumes inv: "cache_inv c" and b: "len_cache c \<le> max 1 (maxSize c)"
  shows "len_cache (step c r) \<le> max 1 (maxSize c)"
proof (cases r)
  case (Put k v d now)
  show ?thesis using b len_cache_nonneg[of c] unfolding Put step.simps len_cache_Set[OF inv]
    by (simp split: if_splits)
next
  case (Lookup k now)
  show ?thesis using b len_cache_Get[OF inv, of k now] unfolding Lookup step.simps by linarith
next
  case (Del k)
  show ?thesis using b len_cache_Delete[OF inv, of k] unfolding Del step.simps by linarith
qed

lemma bounded_run:
  assumes inv: "cache_inv c" and b: "len_cache c \<le> max 1 (maxSize c)"
  shows "len_cache (run c rs) \<le> max 1 (maxSize c)"
  using assms
proof (induction rs arbitrary: c)
  case Nil
  then show ?case by simp
next
  case (Cons r rs)
  have "len_cache (run (step c r) rs) \<le> max 1 (maxSize (step c r))"
    by (rule Cons.IH[OF cache_inv_step[OF Cons.prems(1)]])
       (simp add: bounded_step[OF Cons.prems])
  then show ?case by simp
qed

lemma len_cache_New [simp]: "len_cache (NewInMemoryCache n) = 0"
  by (simp add: len_cache_def NewInMemoryCache_def)

lemma maxSize_New [simp]: "maxSize (NewInMemoryCache n) = n"
  by (simp add: NewInMemoryCache_def)

text \<open>
  Claim C1. For a positive capacity \<open>N\<close> and any sequence of Put, Get and Delete requests
  applied to the empty cache of capacity \<open>N\<close>, the hash map holds at most \<open>N\<close> keys and the
  recency list at most \<open>N\<close> elements after every request: the bound holds after each prefix
  \<open>take n rs\<close> of the sequence.
\<close>

theorem capacity_invariant:
  "0 < N \<Longrightarrow>
     len_cache (run (NewInMemoryCache N) (take n rs)) \<le> N \<and>
     int (length (lruList (run (NewInMemoryCache N) (take n rs)))) \<le> N"
  using bounded_run[OF cache_inv_New, of N "take n rs"]
    len_cache_length[OF cache_inv_run[OF cache_inv_New], of N "take n rs"]
  by simp

lemmas eval_defs = InMemoryCache_Set_def InMemoryCache_Get_def InMemoryCache_Delete_def
  NewInMemoryCache_def len_cache_def evict_def removeElement_def Back_def Remove_def
  PushFront_def MoveToFront_def entries_def entry_of_def Let_def

theorem capacity_invariant_witness:
  "(0::int) < 2 \<and>
   len_cache (run (NewInMemoryCache 2)
     (take 3 [Put ''a'' (1::int) 10 0, Put ''b'' 2 10 1, Put ''c'' 3 10 2])) \<le> 2 \<and>
   int (length (lruList (run (NewInMemoryCache 2)
     (take 3 [Put ''a'' (1::int) 10 0, Put ''b'' 2 10 1, Put ''c'' 3 10 2])))) \<le> 2"
  using capacity_invariant[of 2 3 "[Put ''a'' (1::int) 10 0, Put ''b'' 2 10 1, Put ''c'' 3 10 2]"]
  by simp

subsection \<open>The entry of a key, read off the recency order\<close>

lemma find_filter_imp:
  assumes "\<And>x. P x \<Longrightarrow> Q x"
  shows "find P (filter Q xs) = find P xs"
  using assms by (induction xs) auto

lemma find_filter_neq [simp]:
  "k' \<noteq> k \<Longrightarrow> find (\<lambda>x. key x = k') (filter (\<lambda>y. key y \<noteq> k) xs) = find (\<lambda>x. key x = k') xs"
  by (rule find_filter_imp) simp

lemma find_filter_same [simp]:
  "find (\<lambda>x. key x = k) (filter (\<lambda>y. key y \<noteq> k) xs) = None"
  by (simp add: find_None_iff)

lemma entry_of_find:
  assumes inv: "cache_inv c"
  shows "entry_of c k = find (\<lambda>x. key x = k) (entries c)"
proof (cases "cache c k")
  case None
  then have "k \<notin> key ` set (entries c)" using cache_None_iff[OF inv] by simp
  then have "find (\<lambda>x. key x = k) (entries c) = None" by (auto simp: find_None_iff)
  then show ?thesis using None by (simp add: entry_of_def)
next
  case (Some e)
  note e = cache_inv_lookup[OF inv Some]
  have "heap c ! e \<in> set (entries c)" using e(1) by (simp add: entries_def)
  then have "find (\<lambda>x. key x = k) (entries c) \<noteq> None"
    using e(3) by (auto simp: find_None_iff)
  then obtain x where x: "find (\<lambda>x. key x = k) (entries c) = Some x" by blast
  then have "x \<in> set (entries c)" "key x = k"
    by (auto simp: find_Some_iff)
  then obtain a where a: "a \<in> set (lruList c)" "x = heap c ! a"
    by (auto simp: entries_def)
  have "cache c k = Some a"
    using cache_inv_linked(1)[OF inv a(1)] a(2) \<open>key x = k\<close> by simp
  then have "a = e" using Some by simp
  then show ?thesis using x a(2) Some by (simp add: entry_of_def)
qed

lemma int_length_filter_key:
  assumes inv: "cache_inv c" and k: "cache c k = Some e"
  shows "int (length (filter (\<lambda>y. key y \<noteq> k) (entries c))) = len_cache c - 1"
proof -
  have "1 \<le> length (entries c)"
    using entries_nonempty[OF inv k] by (cases "entries c") simp_all
  then show ?thesis
    unfolding length_filter_key[OF inv k] len_cache_entries[OF inv] by simp
qed

text \<open>
  Claim C3. Get on a key without an entry reports not-found and changes nothing. Get on a
  key whose entry has \<open>ttl \<le> now\<close> reports not-found and removes that entry: the key is
  unmapped, the other entries keep their order, and the size goes down by one. Otherwise
  Get returns the stored value, moves the entry to the front of the recency order and
  leaves the entry and all others as they were.
\<close>

theorem Get_behaviour:
  assumes inv: "cache_inv c"
  shows "(entry_of c k = None \<longrightarrow> InMemoryCache_Get c k now = (Inl KeyNotFound, c)) \<and>
         (\<forall>x. entry_of c k = Some x \<and> ttl x \<le> now \<longrightarrow>
              fst (InMemoryCache_Get c k now) = Inl KeyNotFound \<and>
              entry_of (snd (InMemoryCache_Get c k now)) k = None \<and>
              entries (snd (InMemoryCache_Get c k now)) = filter (\<lambda>y. key y \<noteq> k) (entries c) \<and>
              len_cache (snd (InMemoryCache_Get c k now)) = len_cache c - 1 \<and>
              len_cache (snd (InMemoryCache_Get c k now)) < len_cache c) \<and>
         (\<forall>x. entry_of c k = Some x \<and> now < ttl x \<longrightarrow>
              fst (InMemoryCache_Get c k now) = Inr (val x) \<and>
              entries (snd (InMemoryCache_Get c k now)) = x # filter (\<lambda>y. key y \<noteq> k) (entries c) \<and>
              entry_of (snd (InMemoryCache_Get c k now)) k = Some x \<and>
              len_cache (snd (InMemoryCache_Get c k now)) = len_cache c)"
proof (cases "cache c k")
  case None
  then show ?thesis by (simp add: Get_miss entry_of_def)
next
  case (Some e)
  let ?c' = "snd (InMemoryCache_Get c k now)"
  have inv': "cache_inv ?c'" by (rule cache_inv_Get[OF inv])
  have x: "entry_of c k = Some (heap c ! e)" using Some by (simp add: entry_of_def)
  have kx: "key (heap c ! e) = k" by (rule cache_inv_lookup(3)[OF inv Some])
  have ne: "length (entries c) \<noteq> 0" using entries_nonempty[OF inv Some] by simp
  show ?thesis
  proof (cases "now < ttl (heap c ! e)")
    case True
    have es: "entries ?c' = heap c ! e # filter (\<lambda>y. key y \<noteq> k) (entries c)"
      by (rule entries_Get_hit[OF inv Some True])
    have "fst (InMemoryCache_Get c k now) = Inr (val (heap c ! e))"
      by (simp add: Get_hit[OF inv Some True])
    moreover have "entry_of ?c' k = Some (heap c ! e)"
      by (simp add: entry_of_find[OF inv'] es kx)
    moreover have "len_cache ?c' = len_cache c"
      by (simp add: len_cache_entries[OF inv'] es int_length_filter_key[OF inv Some])
    ultimately show ?thesis using x True es by simp
  next
    case False
    then have dead: "ttl (heap c ! e) \<le> now" by simp
    have es: "entries ?c' = filter (\<lambda>y. key y \<noteq> k) (entries c)"
      by (rule entries_Get_expired[OF inv Some dead])
    have "fst (InMemoryCache_Get c k now) = Inl KeyNotFound"
      by (simp add: Get_expired[OF Some dead])
    moreover have "entry_of ?c' k = None"
      unfolding entry_of_find[OF inv'] es by simp
    moreover have "len_cache ?c' = len_cache c - 1" "len_cache ?c' < len_cache c"
      by (simp_all add: len_cache_entries[OF inv'] es int_length_filter_key[OF inv Some])
    ultimately show ?thesis using x dead es by simp
  qed
qed

theorem Get_behaviour_witness:
  "cache_inv (run (NewInMemoryCache 2) [Put ''a'' (1::int) 10 0]) \<and>
   InMemoryCache_Get (run (NewInMemoryCache 2) [Put ''a'' (1::int) 10 0]) ''b'' 5 =
     (Inl KeyNotFound, run (NewInMemoryCache 2) [Put ''a'' (1::int) 10 0]) \<and>
   fst (InMemoryCache_Get (run (NewInMemoryCache 2) [Put ''a'' (1::int) 10 0]) ''a'' 5) = Inr 1 \<and>
   fst (InMemoryCache_Get (run (NewInMemoryCache 2) [Put ''a'' (1::int) 10 0]) ''a'' 10) =
     Inl KeyNotFound \<and>
   entries (snd (InMemoryCache_Get (run (NewInMemoryCache 2) [Put ''a'' (1::int) 10 0]) ''a'' 10)) = []"
proof -
  let ?c = "run (NewInMemoryCache 2) [Put ''a'' (1::int) 10 0]"
  have inv: "cache_inv ?c" by (rule cache_inv_run[OF cache_inv_New])
  have a: "entry_of ?c ''a'' = Some \<lparr>key = ''a'', val = 1, ttl = 10\<rparr>"
    by (simp add: eval_defs)
  have b: "entry_of ?c ''b'' = None" by (simp add: eval_defs)
  have es: "entries ?c = [\<lparr>key = ''a'', val = 1, ttl = 10\<rparr>]" by (simp add: eval_defs)
  show ?thesis
    using inv Get_behaviour[OF inv, of "''b''" 5] Get_behaviour[OF inv, of "''a''" 5]
      Get_behaviour[OF inv, of "''a''" 10] a b es
    by simp
qed

text \<open>
  Claim C4. Set on a key that has an entry returns no error, replaces the entry's value by
  the new one and its expiry by \<open>now + ttl\<close>, and moves the entry to the front of the recency
  order. The number of keys is unchanged, and the entries of all other keys keep their
  value, their expiry and their order.
\<close>

theorem Set_existing_key:
  assumes inv: "cache_inv c" and x: "entry_of c k = Some x"
  shows "fst (InMemoryCache_Set c k v d now) = None \<and>
         entries (snd (InMemoryCache_Set c k v d now)) =
           \<lparr>key = k, val = v, ttl = now + d\<rparr> # filter (\<lambda>y. key y \<noteq> k) (entries c) \<and>
         entry_of (snd (InMemoryCache_Set c k v d now)) k =
           Some \<lparr>key = k, val = v, ttl = now + d\<rparr> \<and>
         (\<forall>k'. k' \<noteq> k \<longrightarrow> entry_of (snd (InMemoryCache_Set c k v d now)) k' = entry_of c k') \<and>
         filter (\<lambda>y. key y \<noteq> k) (entries (snd (InMemoryCache_Set c k v d now))) =
           filter (\<lambda>y. key y \<noteq> k) (entries c) \<and>
         len_cache (snd (InMemoryCache_Set c k v d now)) = len_cache c \<and>
         cache_inv (snd (InMemoryCache_Set c k v d now))"
proof -
  let ?c' = "snd (InMemoryCache_Set c k v d now)"
  let ?n = "\<lparr>key = k, val = v, ttl = now + d\<rparr>"
  obtain e where e: "cache c k = Some e" and xe: "x = heap c ! e"
    using x by (auto simp: entry_of_def)
  have kx: "key (heap c ! e) = k" by (rule cache_inv_lookup(3)[OF inv e])
  have inv': "cache_inv ?c'" by (rule cache_inv_Set[OF inv])
  have upd: "(heap c ! e)\<lparr>val := v, ttl := now + d\<rparr> = ?n" using kx by simp
  have es: "entries ?c' = ?n # filter (\<lambda>y. key y \<noteq> k) (entries c)"
    unfolding entries_Set_existing[OF inv e] upd ..
  have 1: "fst (InMemoryCache_Set c k v d now) = None" by (simp add: Set_existing[OF inv e])
  have 2: "entry_of ?c' k = Some ?n" by (simp add: entry_of_find[OF inv'] es)
  have 3: "entry_of ?c' k' = entry_of c k'" if "k' \<noteq> k" for k'
    using that by (simp add: entry_of_find[OF inv'] entry_of_find[OF inv] es)
  have 4: "filter (\<lambda>y. key y \<noteq> k) (entries ?c') = filter (\<lambda>y. key y \<noteq> k) (entries c)"
    by (simp add: es)
  have 5: "len_cache ?c' = len_cache c"
    by (simp add: len_cache_entries[OF inv'] es int_length_filter_key[OF inv e])
  show ?thesis using 1 es 2 3 4 5 inv' by blast
qed

theorem Set_existing_key_witness:
  "cache_inv (run (NewInMemoryCache 2) [Put ''a'' (1::int) 10 0, Put ''b'' 2 10 1]) \<and>
   entry_of (run (NewInMemoryCache 2) [Put ''a'' (1::int) 10 0, Put ''b'' 2 10 1]) ''a'' =
     Some \<lparr>key = ''a'', val = 1, ttl = 10\<rparr> \<and>
   entries (snd (InMemoryCache_Set
       (run (NewInMemoryCache 2) [Put ''a'' (1::int) 10 0, Put ''b'' 2 10 1]) ''a'' 7 20 5)) =
     [\<lparr>key = ''a'', val = 7, ttl = 25\<rparr>, \<lparr>key = ''b'', val = 2, ttl = 11\<rparr>] \<and>
   len_cache (snd (InMemoryCache_Set
       (run (NewInMemoryCache 2) [Put ''a'' (1::int) 10 0, Put ''b'' 2 10 1]) ''a'' 7 20 5)) = 2"
proof -
  let ?c = "run (NewInMemoryCache 2) [Put ''a'' (1::int) 10 0, Put ''b'' 2 10 1]"
  have inv: "cache_inv ?c" by (rule cache_inv_run[OF cache_inv_New])
  have a: "entry_of ?c ''a'' = Some \<lparr>key = ''a'', val = 1, ttl = 10\<rparr>"
    by (simp add: eval_defs)
  have es: "entries ?c = [\<lparr>key = ''b'', val = 2, ttl = 11\<rparr>, \<lparr>key = ''a'', val = 1, ttl = 10\<rparr>]"
    by (simp add: eval_defs)
  have n: "len_cache ?c = 2" by (simp add: eval_defs)
  show ?thesis
    using inv a Set_existing_key[OF inv a, of 7 20 5] es n by simp
qed

text \<open>
  Claim C6. Delete on a key that is mapped returns no error, unlinks the key's element from
  the recency list and unmaps the key; the other entries keep their order and the size goes
  down by one. Delete on a key that is not mapped reports not-found and returns the state
  it was given.
\<close>

theorem Delete_behaviour:
  assumes inv: "cache_inv c"
  shows "(cache c k = None \<longrightarrow> InMemoryCache_Delete c k = (Some KeyNotFound, c)) \<and>
         (\<forall>e. cache c k = Some e \<longrightarrow>
              fst (InMemoryCache_Delete c k) = None \<and>
              cache (snd (InMemoryCache_Delete c k)) k = None \<and>
              lruList (snd (InMemoryCache_Delete c k)) = remove1 e (lruList c) \<and>
              e \<notin> set (lruList (snd (InMemoryCache_Delete c k))) \<and>
              entries (snd (InMemoryCache_Delete c k)) = filter (\<lambda>y. key y \<noteq> k) (entries c) \<and>
              len_cache (snd (InMemoryCache_Delete c k)) = len_cache c - 1 \<and>
              (\<forall>k'. k' \<noteq> k \<longrightarrow> entry_of (snd (InMemoryCache_Delete c k)) k' = entry_of c k'))"
proof (cases "cache c k")
  case None
  then show ?thesis by (simp add: Delete_miss)
next
  case (Some e)
  let ?c' = "snd (InMemoryCache_Delete c k)"
  have inv': "cache_inv ?c'" by (rule cache_inv_Delete[OF inv])
  have d: "distinct (lruList c)" using inv by (simp add: cache_inv_def)
  have kx: "key (heap c ! e) = k" by (rule cache_inv_lookup(3)[OF inv Some])
  have es: "entries ?c' = filter (\<lambda>y. key y \<noteq> k) (entries c)"
    by (rule entries_Delete_hit[OF inv Some])
  have 1: "fst (InMemoryCache_Delete c k) = None" by (simp add: Delete_hit[OF Some])
  have 2: "cache ?c' k = None" by (simp add: Delete_hit[OF Some] kx)
  have 3: "lruList ?c' = remove1 e (lruList c)" by (simp add: Delete_hit[OF Some])
  have 4: "e \<notin> set (lruList ?c')" unfolding 3 using d by simp
  have 5: "len_cache ?c' = len_cache c - 1"
    by (simp add: len_cache_entries[OF inv'] es int_length_filter_key[OF inv Some])
  have 6: "entry_of ?c' k' = entry_of c k'" if "k' \<noteq> k" for k'
    using that by (simp add: entry_of_find[OF inv'] entry_of_find[OF inv] es)
  show ?thesis using Some 1 2 3 4 es 5 6 by simp
qed

theorem Delete_behaviour_witness:
  "cache_inv (run (NewInMemoryCache 2) [Put ''a'' (1::int) 10 0, Put ''b'' 2 10 1]) \<and>
   InMemoryCache_Delete (run (NewInMemoryCache 2) [Put ''a'' (1::int) 10 0, Put ''b'' 2 10 1]) ''z'' =
     (Some KeyNotFound, run (NewInMemoryCache 2) [Put ''a'' (1::int) 10 0, Put ''b'' 2 10 1]) \<and>
   fst (InMemoryCache_Delete
       (run (NewInMemoryCache 2) [Put ''a'' (1::int) 10 0, Put ''b'' 2 10 1]) ''a'') = None \<and>
   entries (snd (InMemoryCache_Delete
       (run (NewInMemoryCache 2) [Put ''a'' (1::int) 10 0, Put ''b'' 2 10 1]) ''a'')) =
     [\<lparr>key = ''b'', val = 2, ttl = 11\<rparr>]"
proof -
  let ?c = "run (NewInMemoryCache 2) [Put ''a'' (1::int) 10 0, Put ''b'' 2 10 1]"
  have inv: "cache_inv ?c" by (rule cache_inv_run[OF cache_inv_New])
  have a: "cache ?c ''a'' = Some 0" by (simp add: eval_defs)
  have z: "cache ?c ''z'' = None" by (simp add: eval_defs)
  have es: "entries ?c = [\<lparr>key = ''b'', val = 2, ttl = 11\<rparr>, \<lparr>key = ''a'', val = 1, ttl = 10\<rparr>]"
    by (simp add: eval_defs)
  show ?thesis
    using inv Delete_behaviour[OF inv, of "''z''"] Delete_behaviour[OF inv, of "''a''"] a z es
    by simp
qed

text \<open>
  Claim C7. Set returns no error, whatever the state, the key, the value, the TTL and the
  clock are; the not-found error is returned by Get and by Delete (here on the empty cache).
\<close>

theorem Set_never_fails:
  "fst (InMemoryCache_Set c k v d now) = None \<and>
   fst (InMemoryCache_Get (NewInMemoryCache n) k' now') = Inl KeyNotFound \<and>
   fst (InMemoryCache_Delete (NewInMemoryCache n) k') = Some KeyNotFound"
  by (simp add: InMemoryCache_Set_def InMemoryCache_Get_def InMemoryCache_Delete_def
      NewInMemoryCache_def Let_def split: option.splits)

subsection \<open>An entry that is not written again\<close>

lemma find_butlast: "find P (butlast xs) = None \<or> find P (butlast xs) = find P xs"
  by (induction xs) auto

lemma entries_Set_front:
  assumes inv: "cache_inv c"
  shows "\<exists>rest. entries (snd (InMemoryCache_Set c k v d now)) =
           \<lparr>key = k, val = v, ttl = now + d\<rparr> # rest"
proof (cases "cache c k")
  case (Some e)
  have "(heap c ! e)\<lparr>val := v, ttl := now + d\<rparr> = \<lparr>key = k, val = v, ttl = now + d\<rparr>"
    using cache_inv_lookup(3)[OF inv Some] by simp
  then show ?thesis using entries_Set_existing[OF inv Some, of v d now] by simp
next
  case None
  show ?thesis
  proof (cases "len_cache c < maxSize c")
    case True
    show ?thesis using entries_Set_new_room[OF inv None True, of v d now] by simp
  next
    case False
    then have "maxSize c \<le> len_cache c" by simp
    from entries_Set_new_full[OF inv None this, of v d now] show ?thesis by simp
  qed
qed

lemma entry_of_Set_same:
  assumes inv: "cache_inv c"
  shows "entry_of (snd (InMemoryCache_Set c k v d now)) k = Some \<lparr>key = k, val = v, ttl = now + d\<rparr>"
proof -
  obtain rest where "entries (snd (InMemoryCache_Set c k v d now)) =
      \<lparr>key = k, val = v, ttl = now + d\<rparr> # rest"
    using entries_Set_front[OF inv] by blast
  then show ?thesis by (simp add: entry_of_find[OF cache_inv_Set[OF inv]])
qed

lemma entry_of_step_other:
  assumes inv: "cache_inv c" and nw: "\<not> writes r k"
  shows "entry_of (step c r) k = entry_of c k \<or> entry_of (step c r) k = None"
proof (cases r)
  case (Put k' v d now)
  then have ne: "k \<noteq> k'" using nw by auto
  let ?c' = "snd (InMemoryCache_Set c k' v d now)"
  have inv': "cache_inv ?c'" by (rule cache_inv_Set[OF inv])
  show ?thesis
  proof (cases "cache c k'")
    case (Some e)
    have "key ((heap c ! e)\<lparr>val := v, ttl := now + d\<rparr>) \<noteq> k"
      using cache_inv_lookup(3)[OF inv Some] ne by simp
    then have "entry_of ?c' k = entry_of c k"
      using ne by (simp add: entry_of_find[OF inv'] entry_of_find[OF inv]
          entries_Set_existing[OF inv Some])
    then show ?thesis by (simp add: Put)
  next
    case None
    show ?thesis
    proof (cases "len_cache c < maxSize c")
      case True
      have "entry_of ?c' k = entry_of c k"
        using ne by (simp add: entry_of_find[OF inv'] entry_of_find[OF inv]
            entries_Set_new_room[OF inv None True])
      then show ?thesis by (simp add: Put)
    next
      case False
      then have full: "maxSize c \<le> len_cache c" by simp
      have "entry_of ?c' k = find (\<lambda>x. key x = k) (butlast (entries c))"
        using ne by (simp add: entry_of_find[OF inv'] entries_Set_new_full[OF inv None full])
      then show ?thesis
        using find_butlast[of "\<lambda>x. key x = k" "entries c"]
        by (auto simp: Put entry_of_find[OF inv])
    qed
  qed
next
  case (Lookup k' now)
  let ?c' = "snd (InMemoryCache_Get c k' now)"
  have inv': "cache_inv ?c'" by (rule cache_inv_Get[OF inv])
  show ?thesis
  proof (cases "cache c k'")
    case None
    then show ?thesis by (simp add: Lookup Get_miss)
  next
    case (Some e)
    show ?thesis
    proof (cases "now < ttl (heap c ! e)")
      case True
      have k': "key (heap c ! e) = k'" by (rule cache_inv_lookup(3)[OF inv Some])
      have "entry_of ?c' k = entry_of c k"
      proof (cases "k = k'")
        case True
        have "entry_of c k = Some (heap c ! e)" using Some True by (simp add: entry_of_def)
        moreover have "entry_of ?c' k = Some (heap c ! e)"
          using True k' by (simp add: entry_of_find[OF inv'] entries_Get_hit[OF inv Some \<open>now < ttl (heap c ! e)\<close>])
        ultimately show ?thesis by simp
      next
        case False
        then show ?thesis
          using k' by (simp add: entry_of_find[OF inv'] entry_of_find[OF inv]
            entries_Get_hit[OF inv Some True])
      qed
      then show ?thesis by (simp add: Lookup)
    next
      case False
      then have dead: "ttl (heap c ! e) \<le> now" by simp
      have es: "entries ?c' = filter (\<lambda>y. key y \<noteq> k') (entries c)"
        by (rule entries_Get_expired[OF inv Some dead])
      show ?thesis
        by (cases "k = k'")
           (simp_all add: Lookup entry_of_find[OF inv'] entry_of_find[OF inv] es)
    qed
  qed
next
  case (Del k')
  let ?c' = "snd (InMemoryCache_Delete c k')"
  have inv': "cache_inv ?c'" by (rule cache_inv_Delete[OF inv])
  show ?thesis
  proof (cases "cache c k'")
    case None
    then show ?thesis by (simp add: Del Delete_miss)
  next
    case (Some e)
    have es: "entries ?c' = filter (\<lambda>y. key y \<noteq> k') (entries c)"
      by (rule entries_Delete_hit[OF inv Some])
    show ?thesis
      by (cases "k = k'")
         (simp_all add: Del entry_of_find[OF inv'] entry_of_find[OF inv] es)
  qed
qed

lemma stale_run:
  assumes "cache_inv c" and "\<forall>x. entry_of c k = Some x \<longrightarrow> ttl x \<le> t"
    and "\<forall>r \<in> set rs. \<not> writes r k"
  shows "\<forall>x. entry_of (run c rs) k = Some x \<longrightarrow> ttl x \<le> t"
  using assms
proof (induction rs arbitrary: c)
  case Nil
  then show ?case by simp
next
  case (Cons r rs)
  have nw: "\<not> writes r k" using Cons.prems(3) by simp
  have "\<forall>x. entry_of (step c r) k = Some x \<longrightarrow> ttl x \<le> t"
    using entry_of_step_other[OF Cons.prems(1) nw] Cons.prems(2) by auto
  from Cons.IH[OF cache_inv_step[OF Cons.prems(1)] this] Cons.prems(3)
  show ?case by simp
qed

lemma Get_stale:
  assumes inv: "cache_inv c" and st: "\<forall>x. entry_of c k = Some x \<longrightarrow> ttl x \<le> now"
  shows "fst (InMemoryCache_Get c k now) = Inl KeyNotFound \<and>
         cache (snd (InMemoryCache_Get c k now)) k = None"
proof (cases "cache c k")
  case None
  then show ?thesis by (simp add: Get_miss)
next
  case (Some e)
  have dead: "ttl (heap c ! e) \<le> now" using st Some by (simp add: entry_of_def)
  show ?thesis
    using cache_inv_lookup(3)[OF inv Some] by (simp add: Get_expired[OF Some dead])
qed

text \<open>
  Claim C5. A Set with TTL zero at time \<open>t\<close> returns no error and stores the entry: the key
  is mapped (so it is counted by \<open>len(c.cache)\<close>), the entry carries the value and expires
  at \<open>t\<close>. The next Get of the key at a time \<open>t' \<ge> t\<close> (in particular at any later time)
  reports not-found and removes the entry, and so does every Get of the key at such a time
  after any requests that do not write the key again: the value is never returned.
\<close>

theorem zero_ttl_unobservable:
  assumes inv: "cache_inv c" and c': "c' = snd (InMemoryCache_Set c k v 0 t)"
  shows "fst (InMemoryCache_Set c k v 0 t) = None \<and>
         entry_of c' k = Some \<lparr>key = k, val = v, ttl = t\<rparr> \<and>
         k \<in> dom (cache c') \<and> 1 \<le> len_cache c' \<and>
         (\<forall>t'. t \<le> t' \<longrightarrow>
            fst (InMemoryCache_Get c' k t') = Inl KeyNotFound \<and>
            cache (snd (InMemoryCache_Get c' k t')) k = None \<and>
            len_cache (snd (InMemoryCache_Get c' k t')) = len_cache c' - 1) \<and>
         (\<forall>rs t'. (\<forall>r \<in> set rs. \<not> writes r k) \<and> t \<le> t' \<longrightarrow>
            fst (InMemoryCache_Get (run c' rs) k t') = Inl KeyNotFound \<and>
            cache (snd (InMemoryCache_Get (run c' rs) k t')) k = None)"
proof -
  have inv': "cache_inv c'" unfolding c' by (rule cache_inv_Set[OF inv])
  have 1: "fst (InMemoryCache_Set c k v 0 t) = None"
    by (simp add: InMemoryCache_Set_def Let_def split: option.splits)
  have 2: "entry_of c' k = Some \<lparr>key = k, val = v, ttl = t\<rparr>"
    unfolding c' using entry_of_Set_same[OF inv, of k v 0 t] by simp
  then obtain e where e: "cache c' k = Some e" and he: "heap c' ! e = \<lparr>key = k, val = v, ttl = t\<rparr>"
    by (auto simp: entry_of_def)
  have 3: "k \<in> dom (cache c')" using e by auto
  have "entries c' \<noteq> []" by (rule entries_nonempty[OF inv' e])
  then have 4: "1 \<le> len_cache c'"
    unfolding len_cache_entries[OF inv'] by (cases "entries c'") simp_all
  have st: "\<forall>x. entry_of c' k = Some x \<longrightarrow> ttl x \<le> t" using 2 by simp
  have 5: "fst (InMemoryCache_Get c' k t') = Inl KeyNotFound \<and>
           cache (snd (InMemoryCache_Get c' k t')) k = None \<and>
           len_cache (snd (InMemoryCache_Get c' k t')) = len_cache c' - 1" if "t \<le> t'" for t'
  proof -
    have dead: "ttl (heap c' ! e) \<le> t'" using he that by simp
    have "len_cache (snd (InMemoryCache_Get c' k t')) = len_cache c' - 1"
      by (simp add: len_cache_entries[OF cache_inv_Get[OF inv']]
          entries_Get_expired[OF inv' e dead] int_length_filter_key[OF inv' e])
    moreover have "\<forall>x. entry_of c' k = Some x \<longrightarrow> ttl x \<le> t'" using 2 that by simp
    ultimately show ?thesis using Get_stale[OF inv'] by blast
  qed
  have 6: "fst (InMemoryCache_Get (run c' rs) k t') = Inl KeyNotFound \<and>
           cache (snd (InMemoryCache_Get (run c' rs) k t')) k = None"
    if "\<forall>r \<in> set rs. \<not> writes r k" "t \<le> t'" for rs t'
  proof -
    have "\<forall>x. entry_of (run c' rs) k = Some x \<longrightarrow> ttl x \<le> t"
      by (rule stale_run[OF inv' st that(1)])
    then have "\<forall>x. entry_of (run c' rs) k = Some x \<longrightarrow> ttl x \<le> t'" using that(2) by auto
    then show ?thesis by (rule Get_stale[OF cache_inv_run[OF inv']])
  qed
  show ?thesis using 1 2 3 4 5 6 by blast
qed

theorem zero_ttl_unobservable_witness:
  "cache_inv (NewInMemoryCache 2 :: int InMemoryCache) \<and>
   \<not> writes (Put ''b'' (2::int) 10 5) ''a'' \<and> \<not> writes (Lookup ''b'' 6 :: int request) ''a'' \<and>
   entry_of (snd (InMemoryCache_Set (NewInMemoryCache 2) ''a'' (1::int) 0 5)) ''a'' =
     Some \<lparr>key = ''a'', val = 1, ttl = 5\<rparr> \<and>
   fst (InMemoryCache_Get (snd (InMemoryCache_Set (NewInMemoryCache 2) ''a'' (1::int) 0 5)) ''a'' 6) =
     Inl KeyNotFound \<and>
   fst (InMemoryCache_Get
         (run (snd (InMemoryCache_Set (NewInMemoryCache 2) ''a'' (1::int) 0 5))
              [Put ''b'' 2 10 5, Lookup ''b'' 6]) ''a'' 7) = Inl KeyNotFound"
proof -
  let ?c' = "snd (InMemoryCache_Set (NewInMemoryCache 2) ''a'' (1::int) 0 5)"
  have inv: "cache_inv (NewInMemoryCache 2 :: int InMemoryCache)" by (rule cache_inv_New)
  have nw: "\<forall>r \<in> set [Put ''b'' (2::int) 10 5, Lookup ''b'' 6]. \<not> writes r ''a''" by simp
  note th = zero_ttl_unobservable[OF inv refl, of "''a''" 1 5]
  have e: "entry_of ?c' ''a'' = Some \<lparr>key = ''a'', val = 1, ttl = 5\<rparr>"
    using th by blast
  have g1: "fst (InMemoryCache_Get ?c' ''a'' t') = Inl KeyNotFound" if "5 \<le> t'" for t'
    using th that by blast
  have g2: "fst (InMemoryCache_Get (run ?c' rs) ''a'' t') = Inl KeyNotFound"
    if "\<forall>r \<in> set rs. \<not> writes r ''a''" "5 \<le> t'" for rs t'
    using th that by blast
  show ?thesis
    using inv e g1[of 6] g2[OF nw, of 7] by simp
qed

lemma length_le_1_butlast: "length xs \<le> 1 \<Longrightarrow> butlast xs = []"
  by (cases xs) simp_all

text \<open>
  Claim C9. With a capacity that is zero or negative the test \<open>len(c.cache) >= c.maxSize\<close>
  always holds. In every state \<open>c\<close> reached from the empty cache, the map has at most one
  key; Set returns no error; for a key that is not mapped, Set first evicts (which changes
  nothing when the list is empty) and then inserts in front; and after any Set the cache
  holds exactly the entry just written.
\<close>

theorem nonpositive_capacity:
  assumes N: "N \<le> 0" and c: "c = run (NewInMemoryCache N) rs"
  shows "len_cache c \<le> 1 \<and>
         fst (InMemoryCache_Set c k v d now) = None \<and>
         (cache c k = None \<longrightarrow>
            snd (InMemoryCache_Set c k v d now) =
              (evict c)\<lparr>heap := heap (evict c) @ [\<lparr>key = k, val = v, ttl = now + d\<rparr>],
                        lruList := length (heap (evict c)) # lruList (evict c),
                        cache := (cache (evict c))(k \<mapsto> length (heap (evict c)))\<rparr>) \<and>
         (lruList c = [] \<longrightarrow> evict c = c) \<and>
         entries (snd (InMemoryCache_Set c k v d now)) = [\<lparr>key = k, val = v, ttl = now + d\<rparr>] \<and>
         len_cache (snd (InMemoryCache_Set c k v d now)) = 1"
proof -
  let ?c' = "snd (InMemoryCache_Set c k v d now)"
  have inv: "cache_inv c" unfolding c by (rule cache_inv_run[OF cache_inv_New])
  have inv': "cache_inv ?c'" by (rule cache_inv_Set[OF inv])
  have m: "maxSize c = N" by (simp add: c)
  have "len_cache c \<le> max 1 (maxSize (NewInMemoryCache N :: 'a InMemoryCache))"
    unfolding c by (rule bounded_run[OF cache_inv_New]) simp
  then have 1: "len_cache c \<le> 1" using N by simp
  then have short: "length (entries c) \<le> 1" by (simp add: len_cache_entries[OF inv])
  have full: "maxSize c \<le> len_cache c" using N m len_cache_nonneg[of c] by simp
  have 2: "fst (InMemoryCache_Set c k v d now) = None"
    by (simp add: InMemoryCache_Set_def Let_def split: option.splits)
  have 3: "cache c k = None \<longrightarrow> ?c' =
              (evict c)\<lparr>heap := heap (evict c) @ [\<lparr>key = k, val = v, ttl = now + d\<rparr>],
                        lruList := length (heap (evict c)) # lruList (evict c),
                        cache := (cache (evict c))(k \<mapsto> length (heap (evict c)))\<rparr>"
    using full by (simp add: Set_new_full)
  have 4: "lruList c = [] \<longrightarrow> evict c = c" by (simp add: evict_Nil)
  have 5: "entries ?c' = [\<lparr>key = k, val = v, ttl = now + d\<rparr>]"
  proof (cases "cache c k")
    case None
    show ?thesis
      by (simp add: entries_Set_new_full[OF inv None full] length_le_1_butlast[OF short])
  next
    case (Some e)
    have "length (filter (\<lambda>y. key y \<noteq> k) (entries c)) = 0"
      unfolding length_filter_key[OF inv Some] using short by simp
    moreover have "(heap c ! e)\<lparr>val := v, ttl := now + d\<rparr> = \<lparr>key = k, val = v, ttl = now + d\<rparr>"
      using cache_inv_lookup(3)[OF inv Some] by simp
    ultimately show ?thesis by (simp add: entries_Set_existing[OF inv Some])
  qed
  have 6: "len_cache ?c' = 1" by (simp add: len_cache_entries[OF inv'] 5)
  show ?thesis using 1 2 3 4 5 6 by blast
qed

theorem nonpositive_capacity_witness:
  "(0::int) \<le> 0 \<and>
   len_cache (run (NewInMemoryCache 0) [Put ''a'' (1::int) 10 0, Put ''b'' 2 10 1]) \<le> 1 \<and>
   entries (run (NewInMemoryCache 0) [Put ''a'' (1::int) 10 0, Put ''b'' 2 10 1, Put ''c'' 3 10 2]) =
     [\<lparr>key = ''c'', val = 3, ttl = 12\<rparr>]"
  using nonpositive_capacity[of 0 _ "[Put ''a'' (1::int) 10 0, Put ''b'' 2 10 1]" "''c''" 3 10 2, OF _ refl]
  by simp

subsection \<open>Filling the cache and evicting\<close>

lemma key_stored [simp]: "key (stored p) = fst p"
  by (cases p) (simp add: stored_def)

lemma find_butlast_keep:
  assumes "xs \<noteq> []" "\<not> P (last xs)"
  shows "find P (butlast xs) = find P xs"
  using assms by (induction xs) auto

lemma len_cache_Set_new_room:
  assumes inv: "cache_inv c" and k: "cache c k = None" and room: "len_cache c < maxSize c"
  shows "len_cache (snd (InMemoryCache_Set c k v d now)) = len_cache c + 1"
  using k room by (simp add: len_cache_Set[OF inv])

lemma run_puts_room:
  assumes "cache_inv c" and "distinct (map fst ps)"
    and "\<forall>p \<in> set ps. cache c (fst p) = None"
    and "len_cache c + int (length ps) \<le> maxSize c"
  shows "entries (run c (puts ps)) = rev (map stored ps) @ entries c"
  using assms
proof (induction ps arbitrary: c)
  case Nil
  then show ?case by (simp add: puts_def)
next
  case (Cons p ps)
  obtain k v d now where p: "p = (k, v, d, now)" by (cases p) auto
  let ?c1 = "snd (InMemoryCache_Set c k v d now)"
  have inv: "cache_inv c" by (rule Cons.prems(1))
  have k: "cache c k = None" using Cons.prems(3) p by simp
  have room: "len_cache c < maxSize c" using Cons.prems(4) by simp
  have inv1: "cache_inv ?c1" by (rule cache_inv_Set[OF inv])
  have es1: "entries ?c1 = stored p # entries c"
    by (simp add: entries_Set_new_room[OF inv k room] p stored_def)
  have fresh: "cache ?c1 (fst q) = None" if q: "q \<in> set ps" for q
  proof -
    have "fst q \<noteq> k" using Cons.prems(2) q p by auto
    moreover have "fst q \<notin> key ` set (entries c)"
      using Cons.prems(3) q cache_None_iff[OF inv] by simp
    ultimately show ?thesis
      unfolding cache_None_iff[OF inv1] es1 using p by simp
  qed
  have len1: "len_cache ?c1 + int (length ps) \<le> maxSize ?c1"
    using Cons.prems(4) by (simp add: len_cache_Set_new_room[OF inv k room])
  have d: "distinct (map fst ps)" using Cons.prems(2) by simp
  have "entries (run ?c1 (puts ps)) = rev (map stored ps) @ entries ?c1"
    using Cons.IH[OF inv1 d _ len1] fresh by blast
  then show ?case by (simp add: puts_def p es1)
qed

lemma find_append_absent:
  "k \<notin> key ` set xs \<Longrightarrow> find (\<lambda>x. key x = k) (xs @ ys) = find (\<lambda>x. key x = k) ys"
  by (induction xs) auto

lemma filter_key_absent: "k \<notin> key ` set xs \<Longrightarrow> filter (\<lambda>y. key y \<noteq> k) xs = xs"
  by (induction xs) auto

lemma Set_evicts_tail:
  assumes inv: "cache_inv c" and k: "cache c k = None"
    and pos: "0 < maxSize c" and full: "maxSize c \<le> len_cache c"
  shows "entries c \<noteq> [] \<and>
         entries (snd (InMemoryCache_Set c k v d now)) =
           \<lparr>key = k, val = v, ttl = now + d\<rparr> # butlast (entries c) \<and>
         cache (snd (InMemoryCache_Set c k v d now)) (key (last (entries c))) = None \<and>
         (\<forall>k'. k' \<noteq> k \<and> k' \<noteq> key (last (entries c)) \<longrightarrow>
            entry_of (snd (InMemoryCache_Set c k v d now)) k' = entry_of c k') \<and>
         len_cache (snd (InMemoryCache_Set c k v d now)) = len_cache c"
proof -
  let ?c' = "snd (InMemoryCache_Set c k v d now)"
  let ?es = "entries c"
  have inv': "cache_inv ?c'" by (rule cache_inv_Set[OF inv])
  have 1: "?es \<noteq> []" using pos full by (auto simp: len_cache_entries[OF inv])
  have 2: "entries ?c' = \<lparr>key = k, val = v, ttl = now + d\<rparr> # butlast ?es"
    by (rule entries_Set_new_full[OF inv k full])
  have split: "?es = butlast ?es @ [last ?es]" using 1 by simp
  have "distinct (map key (butlast ?es @ [last ?es]))"
    using distinct_keys[OF inv] split by simp
  then have notin: "key (last ?es) \<notin> key ` set (butlast ?es)" by simp
  have "last ?es \<in> set ?es" using 1 by simp
  then have "key (last ?es) \<in> key ` set ?es" by (rule imageI)
  then have nk: "key (last ?es) \<noteq> k" using k cache_None_iff[OF inv, of k] by auto
  have 3: "cache ?c' (key (last ?es)) = None"
    unfolding cache_None_iff[OF inv'] 2 using notin nk by simp
  have 4: "entry_of ?c' k' = entry_of c k'" if "k' \<noteq> k \<and> k' \<noteq> key (last ?es)" for k'
  proof -
    have "find (\<lambda>x. key x = k') (butlast ?es) = find (\<lambda>x. key x = k') ?es"
      using that 1 by (intro find_butlast_keep) auto
    then show ?thesis
      using that by (auto simp: entry_of_find[OF inv'] entry_of_find[OF inv] 2)
  qed
  have 5: "len_cache ?c' = len_cache c"
    using 1 by (simp add: len_cache_entries[OF inv'] len_cache_entries[OF inv] 2)
  show ?thesis using 1 2 3 4 5 by blast
qed

lemma touch_then_put:
  assumes dist: "distinct (k1 # k2 # map fst rest)"
    and new: "knew \<notin> set (k1 # k2 # map fst rest)"
    and live: "tg < t1 + d1"
    and N: "N = int (length rest) + 2"
    and c1: "c1 = run (NewInMemoryCache N) (puts ((k1, v1, d1, t1) # (k2, v2, d2, t2) # rest))"
    and c2: "c2 = snd (InMemoryCache_Get c1 k1 tg)"
    and c3: "c3 = snd (InMemoryCache_Set c2 knew v d now)"
  shows "entries c1 = rev (map stored rest) @ [stored (k2, v2, d2, t2), stored (k1, v1, d1, t1)]"
    and "fst (InMemoryCache_Get c1 k1 tg) = Inr v1"
    and "entries c2 = stored (k1, v1, d1, t1) # rev (map stored rest) @ [stored (k2, v2, d2, t2)]"
    and "entries c3 = \<lparr>key = knew, val = v, ttl = now + d\<rparr> # stored (k1, v1, d1, t1) # rev (map stored rest)"
    and "cache_inv c3"
proof -
  let ?p1 = "(k1, v1, d1, t1)" and ?p2 = "(k2, v2, d2, t2)"
  let ?ps = "?p1 # ?p2 # rest"
  let ?c0 = "NewInMemoryCache N :: 'a InMemoryCache"
  have inv0: "cache_inv ?c0" by (rule cache_inv_New)
  have inv1: "cache_inv c1" unfolding c1 by (rule cache_inv_run[OF inv0])
  have inv2: "cache_inv c2" unfolding c2 by (rule cache_inv_Get[OF inv1])
  have inv3: "cache_inv c3" unfolding c3 by (rule cache_inv_Set[OF inv2])
  have keys_rest: "key ` set (rev (map stored rest)) = set (map fst rest)"
    by (simp add: image_image)
  have dps: "distinct (map fst ?ps)" using dist by simp
  have none0: "\<forall>p \<in> set ?ps. cache ?c0 (fst p) = None" by (simp add: NewInMemoryCache_def)
  have len0: "len_cache ?c0 + int (length ?ps) \<le> maxSize ?c0" using N by simp
  have "entries c1 = rev (map stored ?ps) @ entries ?c0"
    unfolding c1 by (rule run_puts_room[OF inv0 dps none0 len0])
  then show es1: "entries c1 = rev (map stored rest) @ [stored ?p2, stored ?p1]"
    by (simp add: entries_def NewInMemoryCache_def)
  have k1_rest: "k1 \<notin> key ` set (rev (map stored rest))"
    unfolding keys_rest using dist by simp
  have "entry_of c1 k1 = Some (stored ?p1)"
    using dist by (auto simp: entry_of_find[OF inv1] es1 find_append_absent[OF k1_rest])
  then obtain e where e: "cache c1 k1 = Some e" and he: "heap c1 ! e = stored ?p1"
    by (auto simp: entry_of_def)
  have hit: "tg < ttl (heap c1 ! e)" using live by (simp add: he stored_def)
  show "fst (InMemoryCache_Get c1 k1 tg) = Inr v1"
    by (simp add: Get_hit[OF inv1 e hit] he stored_def)
  show es2: "entries c2 = stored ?p1 # rev (map stored rest) @ [stored ?p2]"
    unfolding c2 entries_Get_hit[OF inv1 e hit] he es1
    using dist by (auto simp: filter_key_absent[OF k1_rest])
  have "knew \<notin> key ` set (entries c2)"
    unfolding es2 using new by (simp add: image_image)
  then have knew: "cache c2 knew = None" by (simp add: cache_None_iff[OF inv2])
  have "len_cache c2 = N" by (simp add: len_cache_entries[OF inv2] es2 N)
  then have full: "maxSize c2 \<le> len_cache c2" by (simp add: c2 c1)
  show "entries c3 = \<lparr>key = knew, val = v, ttl = now + d\<rparr> # stored ?p1 # rev (map stored rest)"
    unfolding c3 entries_Set_new_full[OF inv2 knew full] es2 by (simp add: butlast_append)
  show "cache_inv c3" by (rule inv3)
qed

text \<open>
  Claim C2. (a) In a cache of positive capacity, a Set of a key that is not mapped, made
  when the map holds at least \<open>maxSize\<close> keys, evicts exactly one entry, the last of the
  recency order, whatever its expiry: the new entry is put in front of the other entries,
  the evicted key is unmapped, every other key keeps its entry, and the number of keys is
  unchanged. (b) The scenario names two resident keys \<open>k1\<close> and \<open>k2\<close>, so the capacity
  \<open>N\<close> is the number of the keys \<open>k1, k2, \<dots>\<close> put, at least two: after the Puts of these
  \<open>N\<close> keys into the empty cache of capacity \<open>N\<close>, a Get of \<open>k1\<close> before its expiry
  succeeds, and the Put of one more key then evicts \<open>k2\<close> and nothing else.
\<close>

theorem lru_eviction:
  "(cache_inv c \<and> cache c k = None \<and> 0 < maxSize c \<and> maxSize c \<le> len_cache c \<longrightarrow>
      entries c \<noteq> [] \<and>
      entries (snd (InMemoryCache_Set c k v d now)) =
        \<lparr>key = k, val = v, ttl = now + d\<rparr> # butlast (entries c) \<and>
      cache (snd (InMemoryCache_Set c k v d now)) (key (last (entries c))) = None \<and>
      (\<forall>k'. k' \<noteq> k \<and> k' \<noteq> key (last (entries c)) \<longrightarrow>
         entry_of (snd (InMemoryCache_Set c k v d now)) k' = entry_of c k') \<and>
      len_cache (snd (InMemoryCache_Set c k v d now)) = len_cache c) \<and>
   (distinct (k1 # k2 # map fst rest) \<and> knew \<notin> set (k1 # k2 # map fst rest) \<and> tg < t1 + d1 \<longrightarrow>
      (let N = int (length rest) + 2;
           c1 = run (NewInMemoryCache N) (puts ((k1, v1, d1, t1) # (k2, v2, d2, t2) # rest));
           c2 = snd (InMemoryCache_Get c1 k1 tg);
           c3 = snd (InMemoryCache_Set c2 knew v' d' now')
       in len_cache c1 = N \<and>
          fst (InMemoryCache_Get c1 k1 tg) = Inr v1 \<and>
          key (last (entries c2)) = k2 \<and>
          entries c3 =
            \<lparr>key = knew, val = v', ttl = now' + d'\<rparr> # stored (k1, v1, d1, t1) # rev (map stored rest) \<and>
          cache c3 k2 = None \<and>
          (\<forall>k' \<in> set (knew # k1 # map fst rest). cache c3 k' \<noteq> None) \<and>
          len_cache c3 = N))"
proof (intro conjI impI)
  assume "cache_inv c \<and> cache c k = None \<and> 0 < maxSize c \<and> maxSize c \<le> len_cache c"
  then have inv: "cache_inv c" and k: "cache c k = None" and pos: "0 < maxSize c"
    and full: "maxSize c \<le> len_cache c" by simp_all
  note a = Set_evicts_tail[OF inv k pos full, of v d now]
  show "entries c \<noteq> []" using a by blast
  show "entries (snd (InMemoryCache_Set c k v d now)) =
        \<lparr>key = k, val = v, ttl = now + d\<rparr> # butlast (entries c)" using a by blast
  show "cache (snd (InMemoryCache_Set c k v d now)) (key (last (entries c))) = None"
    using a by blast
  show "\<forall>k'. k' \<noteq> k \<and> k' \<noteq> key (last (entries c)) \<longrightarrow>
         entry_of (snd (InMemoryCache_Set c k v d now)) k' = entry_of c k'" using a by blast
  show "len_cache (snd (InMemoryCache_Set c k v d now)) = len_cache c" using a by blast
next
  assume h: "distinct (k1 # k2 # map fst rest) \<and> knew \<notin> set (k1 # k2 # map fst rest) \<and> tg < t1 + d1"
  define N where "N = int (length rest) + 2"
  define c1 where "c1 = run (NewInMemoryCache N) (puts ((k1, v1, d1, t1) # (k2, v2, d2, t2) # rest))"
  define c2 where "c2 = snd (InMemoryCache_Get c1 k1 tg)"
  define c3 where "c3 = snd (InMemoryCache_Set c2 knew v' d' now')"
  from h have dist: "distinct (k1 # k2 # map fst rest)"
    and new: "knew \<notin> set (k1 # k2 # map fst rest)" and live: "tg < t1 + d1" by simp_all
  note t = touch_then_put[OF dist new live N_def c1_def c2_def c3_def]
  have inv1: "cache_inv c1" unfolding c1_def by (rule cache_inv_run[OF cache_inv_New])
  have 1: "len_cache c1 = N" by (simp add: len_cache_entries[OF inv1] t(1) N_def)
  have 3: "key (last (entries c2)) = k2" by (simp add: t(3))
  have keys3: "key ` set (entries c3) = set (knew # k1 # map fst rest)"
    by (simp add: t(4) image_image)
  have 5: "cache c3 k2 = None"
    unfolding cache_None_iff[OF t(5)] keys3 using dist new by auto
  have 6: "\<forall>k' \<in> set (knew # k1 # map fst rest). cache c3 k' \<noteq> None"
    unfolding cache_None_iff[OF t(5)] keys3 by blast
  have 7: "len_cache c3 = N" by (simp add: len_cache_entries[OF t(5)] t(4) N_def)
  have "len_cache c1 = N \<and>
        fst (InMemoryCache_Get c1 k1 tg) = Inr v1 \<and>
        key (last (entries c2)) = k2 \<and>
        entries c3 =
          \<lparr>key = knew, val = v', ttl = now' + d'\<rparr> # stored (k1, v1, d1, t1) # rev (map stored rest) \<and>
        cache c3 k2 = None \<and>
        (\<forall>k' \<in> set (knew # k1 # map fst rest). cache c3 k' \<noteq> None) \<and>
        len_cache c3 = N"
    using 1 t(2) 3 t(4) 5 6 7 by blast
  then show "let N = int (length rest) + 2;
           c1 = run (NewInMemoryCache N) (puts ((k1, v1, d1, t1) # (k2, v2, d2, t2) # rest));
           c2 = snd (InMemoryCache_Get c1 k1 tg);
           c3 = snd (InMemoryCache_Set c2 knew v' d' now')
       in len_cache c1 = N \<and>
          fst (InMemoryCache_Get c1 k1 tg) = Inr v1 \<and>
          key (last (entries c2)) = k2 \<and>
          entries c3 =
            \<lparr>key = knew, val = v', ttl = now' + d'\<rparr> # stored (k1, v1, d1, t1) # rev (map stored rest) \<and>
          cache c3 k2 = None \<and>
          (\<forall>k' \<in> set (knew # k1 # map fst rest). cache c3 k' \<noteq> None) \<and>
          len_cache c3 = N"
    unfolding Let_def N_def c1_def c2_def c3_def .
qed

theorem lru_eviction_witness:
  "cache_inv (run (NewInMemoryCache 2) [Put ''a'' (1::int) 10 0, Put ''b'' 2 10 1]) \<and>
   cache (run (NewInMemoryCache 2) [Put ''a'' (1::int) 10 0, Put ''b'' 2 10 1]) ''c'' = None \<and>
   maxSize (run (NewInMemoryCache 2) [Put ''a'' (1::int) 10 0, Put ''b'' 2 10 1]) = 2 \<and>
   len_cache (run (NewInMemoryCache 2) [Put ''a'' (1::int) 10 0, Put ''b'' 2 10 1]) = 2 \<and>
   entries (snd (InMemoryCache_Set
      (run (NewInMemoryCache 2) [Put ''a'' (1::int) 10 0, Put ''b'' 2 10 1]) ''c'' 3 10 2)) =
     [\<lparr>key = ''c'', val = 3, ttl = 12\<rparr>, \<lparr>key = ''b'', val = 2, ttl = 11\<rparr>] \<and>
   distinct [''a'', ''b'', ''c''] \<and> ''d'' \<notin> set [''a'', ''b'', ''c''] \<and> (3::int) < 0 + 10 \<and>
   entries (snd (InMemoryCache_Set (snd (InMemoryCache_Get
      (run (NewInMemoryCache 3) (puts [(''a'', 1::int, 10, 0), (''b'', 2, 10, 1), (''c'', 3, 10, 2)]))
      ''a'' 3)) ''d'' 4 10 4)) =
     [\<lparr>key = ''d'', val = 4, ttl = 14\<rparr>, \<lparr>key = ''a'', val = 1, ttl = 10\<rparr>,
      \<lparr>key = ''c'', val = 3, ttl = 12\<rparr>] \<and>
   cache (snd (InMemoryCache_Set (snd (InMemoryCache_Get
      (run (NewInMemoryCache 3) (puts [(''a'', 1::int, 10, 0), (''b'', 2, 10, 1), (''c'', 3, 10, 2)]))
      ''a'' 3)) ''d'' 4 10 4)) ''b'' = None"
proof -
  let ?c = "run (NewInMemoryCache 2) [Put ''a'' (1::int) 10 0, Put ''b'' 2 10 1]"
  have inv: "cache_inv ?c" by (rule cache_inv_run[OF cache_inv_New])
  have k: "cache ?c ''c'' = None" by (simp add: eval_defs)
  have n: "len_cache ?c = 2" by (simp add: eval_defs)
  have es: "entries ?c = [\<lparr>key = ''b'', val = 2, ttl = 11\<rparr>, \<lparr>key = ''a'', val = 1, ttl = 10\<rparr>]"
    by (simp add: eval_defs)
  note th = lru_eviction[where c = ?c and k = "''c''" and v = 3 and d = 10 and now = 2
      and ?k1.0 = "''a''" and ?k2.0 = "''b''" and rest = "[(''c'', 3::int, 10, 2)]" and knew = "''d''"
      and tg = 3 and ?t1.0 = 0 and ?d1.0 = 10 and ?v1.0 = "1::int" and ?v2.0 = "2::int" and ?d2.0 = 10
      and ?t2.0 = 1 and v' = "4::int" and d' = 10 and now' = 4]
  show ?thesis
    using th inv k n es by (simp add: Let_def stored_def puts_def)
qed

subsection \<open>The two-tier cache\<close>

lemma RedisCache_Set_client: "RedisCache_Set x r k v d = client_Set x r k v d"
  by (simp add: RedisCache_Set_def split: prod.splits option.splits)

lemma UnifiedCache_Set_eq:
  "UnifiedCache_Set x u k v d now =
     (fst (client_Set x (Redis u) k (StrV (Sprintf_v x v)) d),
      \<lparr>InMemory = \<lparr>data = (data (InMemory u))(k \<mapsto> \<lparr>Value = v, TTL = now + d\<rparr>)\<rparr>,
       Redis = snd (client_Set x (Redis u) k (StrV (Sprintf_v x v)) d)\<rparr>)"
  by (simp add: UnifiedCache_Set_def InMemoryCache2_Set_def RedisCache_Set_client Let_def
      split: prod.splits)

lemma UnifiedCache_Get_hit:
  assumes "data (InMemory u) k = Some item" "\<not> TTL item < now" "Value item \<noteq> INil"
  shows "UnifiedCache_Get x u k now = ((Value item, None), u)"
  using assms by (simp add: UnifiedCache_Get_def InMemoryCache2_Get_def)

lemma RedisCache_Get_cases:
  "RedisCache_Get x r k =
     ((case fst (client_Get x r k) of
         RedisNil \<Rightarrow> (INil, None)
       | Failed err \<Rightarrow> (INil, Some err)
       | Result s \<Rightarrow> (case Atoi x s of None \<Rightarrow> (StrV s, None) | Some i \<Rightarrow> (IntV i, None))),
      snd (client_Get x r k))"
  by (simp add: RedisCache_Get_def split: prod.splits reply.splits option.splits)

lemma UnifiedCache_Get_remote:
  "(case RedisCache_Get x r k of
      ((rawValue, Some err'), r') \<Rightarrow> ((INil, Some err'), u\<lparr>Redis := r'\<rparr>)
    | ((rawValue, None), r') \<Rightarrow>
        (case rawValue of
           StrV strValue \<Rightarrow>
             (case Atoi x strValue of
                None \<Rightarrow> ((StrV strValue, None), u\<lparr>Redis := r'\<rparr>)
              | Some intValue \<Rightarrow> ((IntV intValue, None), u\<lparr>Redis := r'\<rparr>))
         | _ \<Rightarrow> ((rawValue, None), u\<lparr>Redis := r'\<rparr>))) =
   (fst (RedisCache_Get x r k), u\<lparr>Redis := snd (RedisCache_Get x r k)\<rparr>)"
  unfolding RedisCache_Get_cases
  by (cases "fst (client_Get x r k)") (simp_all split: option.splits)

lemma UnifiedCache_Get_miss:
  assumes "\<not> (\<exists>item. data (InMemory u) k = Some item \<and> \<not> TTL item < now \<and> Value item \<noteq> INil)"
  shows "UnifiedCache_Get x u k now =
         (fst (RedisCache_Get x (Redis u) k), u\<lparr>Redis := snd (RedisCache_Get x (Redis u) k)\<rparr>)"
  using assms
  by (cases "data (InMemory u) k")
     (auto simp: UnifiedCache_Get_def InMemoryCache2_Get_def UnifiedCache_Get_remote)

lemma UnifiedCache_Get_local:
  "InMemory (snd (UnifiedCache_Get x u k now)) = InMemory u"
proof (cases "\<exists>item. data (InMemory u) k = Some item \<and> \<not> TTL item < now \<and> Value item \<noteq> INil")
  case True
  then show ?thesis by (auto simp: UnifiedCache_Get_hit)
next
  case False
  then show ?thesis by (simp add: UnifiedCache_Get_miss)
qed

text \<open>
  Claim C8. A write of the composition stores the item in the local map and calls the
  client's Set on the store with the same key, the value formatted as a string and the same
  TTL; its result is that call's. A read whose key has a local item that is not expired and
  not nil returns that value and the state it was given, whatever the client is: the store
  is not called. Any other read calls the store's Get once, returns what \<open>RedisCache.Get\<close>
  returns and changes only the store's state. No read changes the local map.
\<close>

theorem two_tier_composition:
  "UnifiedCache_Set x u k v d now =
     (fst (client_Set x (Redis u) k (StrV (Sprintf_v x v)) d),
      \<lparr>InMemory = \<lparr>data = (data (InMemory u))(k \<mapsto> \<lparr>Value = v, TTL = now + d\<rparr>)\<rparr>,
       Redis = snd (client_Set x (Redis u) k (StrV (Sprintf_v x v)) d)\<rparr>) \<and>
   (\<forall>item. data (InMemory u) k = Some item \<and> \<not> TTL item < now \<and> Value item \<noteq> INil \<longrightarrow>
      UnifiedCache_Get x u k now = ((Value item, None), u)) \<and>
   (\<not> (\<exists>item. data (InMemory u) k = Some item \<and> \<not> TTL item < now \<and> Value item \<noteq> INil) \<longrightarrow>
      UnifiedCache_Get x u k now =
        (fst (RedisCache_Get x (Redis u) k), u\<lparr>Redis := snd (client_Get x (Redis u) k)\<rparr>)) \<and>
   InMemory (snd (UnifiedCache_Get x u k now)) = InMemory u"
proof -
  have "snd (RedisCache_Get x (Redis u) k) = snd (client_Get x (Redis u) k)"
    by (simp add: RedisCache_Get_cases)
  then show ?thesis
    using UnifiedCache_Set_eq[of x u k v d now] UnifiedCache_Get_hit[of u k _ now x]
      UnifiedCache_Get_miss[of u k now x] UnifiedCache_Get_local[of x u k now]
    by simp
qed

theorem two_tier_composition_witness:
  "UnifiedCache_Set map_extern (NewUnifiedCache Map.empty) ''k'' (IntV 7) 10 0 =
     (None, \<lparr>InMemory = \<lparr>data = [''k'' \<mapsto> \<lparr>Value = IntV 7, TTL = 10\<rparr>]\<rparr>, Redis = [''k'' \<mapsto> ''7'']\<rparr>) \<and>
   UnifiedCache_Get map_extern
     \<lparr>InMemory = \<lparr>data = [''a'' \<mapsto> \<lparr>Value = IntV 7, TTL = 10\<rparr>]\<rparr>, Redis = [''b'' \<mapsto> ''7'']\<rparr> ''a'' 5 =
     ((IntV 7, None),
      \<lparr>InMemory = \<lparr>data = [''a'' \<mapsto> \<lparr>Value = IntV 7, TTL = 10\<rparr>]\<rparr>, Redis = [''b'' \<mapsto> ''7'']\<rparr>) \<and>
   UnifiedCache_Get map_extern
     \<lparr>InMemory = \<lparr>data = [''a'' \<mapsto> \<lparr>Value = IntV 7, TTL = 10\<rparr>]\<rparr>, Redis = [''b'' \<mapsto> ''7'']\<rparr> ''b'' 5 =
     ((IntV 7, None),
      \<lparr>InMemory = \<lparr>data = [''a'' \<mapsto> \<lparr>Value = IntV 7, TTL = 10\<rparr>]\<rparr>, Redis = [''b'' \<mapsto> ''7'']\<rparr>)"
proof -
  let ?u = "\<lparr>InMemory = \<lparr>data = [''a'' \<mapsto> \<lparr>Value = IntV 7 :: unit iface, TTL = 10\<rparr>]\<rparr>,
             Redis = [''b'' \<mapsto> ''7'']\<rparr>"
  note w = two_tier_composition[of map_extern "NewUnifiedCache Map.empty" "''k''" "IntV 7" 10 0]
  note h = two_tier_composition[of map_extern ?u "''a''" "IntV 7" 10 5]
  note m = two_tier_composition[of map_extern ?u "''b''" "IntV 7" 10 5]
  have 1: "UnifiedCache_Set map_extern (NewUnifiedCache Map.empty) ''k'' (IntV 7) 10 0 =
     (None, \<lparr>InMemory = \<lparr>data = [''k'' \<mapsto> \<lparr>Value = IntV 7, TTL = 10\<rparr>]\<rparr>, Redis = [''k'' \<mapsto> ''7'']\<rparr>)"
    using w by (simp add: map_extern_def NewUnifiedCache_def NewInMemoryCache2_def)
  have 2: "UnifiedCache_Get map_extern ?u ''a'' 5 = ((IntV 7, None), ?u)"
    using h by simp
  have 3: "UnifiedCache_Get map_extern ?u ''b'' 5 = ((IntV 7, None), ?u)"
    using m by (simp add: map_extern_def RedisCache_Get_def)
  show ?thesis using 1 2 3 by simp
qed

text \<open>
  Claim C10. The local tier's Get returns the nil value and no error for a key that is not
  in the map, for a key whose item is expired, and for a key whose item holds nil. Whenever
  the local Get returns nil, the composed Get goes on to the store and returns what
  \<open>RedisCache.Get\<close> returns. So for a key whose local item holds nil, the composed Get
  returns the same result and the same store state as if the key were not in the local map.
\<close>

theorem nil_is_a_miss:
  "(data c k = None \<longrightarrow> InMemoryCache2_Get c k now = (INil, None :: 'e option)) \<and>
   (\<forall>item. data c k = Some item \<and> TTL item < now \<longrightarrow>
      InMemoryCache2_Get c k now = (INil, None :: 'e option)) \<and>
   (\<forall>item. data c k = Some item \<and> Value item = INil \<longrightarrow>
      InMemoryCache2_Get c k now = (INil, None :: 'e option)) \<and>
   InMemoryCache2_Get (snd (InMemoryCache2_Set c k INil d t :: 'e option \<times> 'a InMemoryCache2)) k now =
     (INil, None :: 'e option) \<and>
   (InMemoryCache2_Get (InMemory u) k now = (INil, None :: 'e option) \<longrightarrow>
      UnifiedCache_Get x u k now =
        (fst (RedisCache_Get x (Redis u) k), u\<lparr>Redis := snd (RedisCache_Get x (Redis u) k)\<rparr>)) \<and>
   (\<forall>item. data (InMemory u) k = Some item \<and> Value item = INil \<longrightarrow>
      fst (UnifiedCache_Get x u k now) =
        fst (UnifiedCache_Get x (u\<lparr>InMemory := \<lparr>data = (data (InMemory u))(k := None)\<rparr>\<rparr>) k now) \<and>
      Redis (snd (UnifiedCache_Get x u k now)) =
        Redis (snd (UnifiedCache_Get x (u\<lparr>InMemory := \<lparr>data = (data (InMemory u))(k := None)\<rparr>\<rparr>) k now)))"
proof -
  have 1: "data c k = None \<longrightarrow> InMemoryCache2_Get c k now = (INil, None :: 'e option)"
    by (simp add: InMemoryCache2_Get_def)
  have 2: "\<forall>item. data c k = Some item \<and> TTL item < now \<longrightarrow>
      InMemoryCache2_Get c k now = (INil, None :: 'e option)"
    by (simp add: InMemoryCache2_Get_def)
  have 3: "\<forall>item. data c k = Some item \<and> Value item = INil \<longrightarrow>
      InMemoryCache2_Get c k now = (INil, None :: 'e option)"
    by (simp add: InMemoryCache2_Get_def)
  have 4: "InMemoryCache2_Get (snd (InMemoryCache2_Set c k INil d t :: 'e option \<times> 'a InMemoryCache2)) k now =
     (INil, None :: 'e option)"
    by (simp add: InMemoryCache2_Get_def InMemoryCache2_Set_def)
  have 5: "UnifiedCache_Get x u k now =
        (fst (RedisCache_Get x (Redis u) k), u\<lparr>Redis := snd (RedisCache_Get x (Redis u) k)\<rparr>)"
    if "InMemoryCache2_Get (InMemory u) k now = (INil, None :: 'e option)"
  proof (rule UnifiedCache_Get_miss)
    show "\<not> (\<exists>item. data (InMemory u) k = Some item \<and> \<not> TTL item < now \<and> Value item \<noteq> INil)"
      using that by (auto simp: InMemoryCache2_Get_def split: if_splits)
  qed
  have 6: "fst (UnifiedCache_Get x u k now) =
        fst (UnifiedCache_Get x (u\<lparr>InMemory := \<lparr>data = (data (InMemory u))(k := None)\<rparr>\<rparr>) k now) \<and>
      Redis (snd (UnifiedCache_Get x u k now)) =
        Redis (snd (UnifiedCache_Get x (u\<lparr>InMemory := \<lparr>data = (data (InMemory u))(k := None)\<rparr>\<rparr>) k now))"
    if "data (InMemory u) k = Some item \<and> Value item = INil" for item
  proof -
    let ?u' = "u\<lparr>InMemory := \<lparr>data = (data (InMemory u))(k := None)\<rparr>\<rparr>"
    have a: "\<not> (\<exists>item. data (InMemory u) k = Some item \<and> \<not> TTL item < now \<and> Value item \<noteq> INil)"
      using that by auto
    have b: "\<not> (\<exists>item. data (InMemory ?u') k = Some item \<and> \<not> TTL item < now \<and> Value item \<noteq> INil)"
      by simp
    show ?thesis
      unfolding UnifiedCache_Get_miss[OF a] UnifiedCache_Get_miss[OF b] by simp
  qed
  show ?thesis using 1 2 3 4 5 6 by blast
qed

theorem nil_is_a_miss_witness:
  "InMemoryCache2_Get \<lparr>data = [''a'' \<mapsto> \<lparr>Value = INil :: unit iface, TTL = 10\<rparr>]\<rparr> ''a'' 5 =
     (INil, None :: unit option) \<and>
   InMemoryCache2_Get \<lparr>data = [''a'' \<mapsto> \<lparr>Value = IntV 7 :: unit iface, TTL = 10\<rparr>]\<rparr> ''a'' 11 =
     (INil, None :: unit option) \<and>
   InMemoryCache2_Get \<lparr>data = [''a'' \<mapsto> \<lparr>Value = IntV 7 :: unit iface, TTL = 10\<rparr>]\<rparr> ''b'' 5 =
     (INil, None :: unit option) \<and>
   UnifiedCache_Get map_extern
     \<lparr>InMemory = \<lparr>data = [''a'' \<mapsto> \<lparr>Value = INil, TTL = 10\<rparr>]\<rparr>, Redis = [''a'' \<mapsto> ''7'']\<rparr> ''a'' 5 =
     ((IntV 7, None),
      \<lparr>InMemory = \<lparr>data = [''a'' \<mapsto> \<lparr>Value = INil, TTL = 10\<rparr>]\<rparr>, Redis = [''a'' \<mapsto> ''7'']\<rparr>)"
proof -
  let ?n = "\<lparr>data = [''a'' \<mapsto> \<lparr>Value = INil :: unit iface, TTL = 10\<rparr>]\<rparr>"
  let ?c = "\<lparr>data = [''a'' \<mapsto> \<lparr>Value = IntV 7 :: unit iface, TTL = 10\<rparr>]\<rparr>"
  let ?u = "\<lparr>InMemory = ?n, Redis = [''a'' \<mapsto> ''7'']\<rparr>"
  note a = nil_is_a_miss[where c = ?n and k = "''a''" and now = 5 and u = ?u and x = map_extern
      and 'e = unit]
  note b = nil_is_a_miss[where c = ?c and k = "''a''" and now = 11 and u = ?u and x = map_extern
      and 'e = unit]
  note c = nil_is_a_miss[where c = ?c and k = "''b''" and now = 5 and u = ?u and x = map_extern
      and 'e = unit]
  have 1: "InMemoryCache2_Get ?n ''a'' 5 = (INil, None :: unit option)" using a by simp
  have 2: "InMemoryCache2_Get ?c ''a'' 11 = (INil, None :: unit option)" using b by simp
  have 3: "InMemoryCache2_Get ?c ''b'' 5 = (INil, None :: unit option)" using c by simp
  have 4: "UnifiedCache_Get map_extern ?u ''a'' 5 = ((IntV 7, None), ?u)"
    using a 1 by (simp add: map_extern_def RedisCache_Get_def)
  show ?thesis using 1 2 3 4 by simp
qed

end
